theory Spec2Isabelle
  imports Main "HOL-Library.AList" "HOL-Library.Char_ord" "HOL-Library.List_Lexorder"
begin

section \<open>The file-backed document store of main.go\<close>

text \<open>
  The driver of main.go keeps one JSON file per record under
  \<^verbatim>\<open><dir>/<collection>/<resource>.json\<close> and one mutex per collection. Its four
  operations call three libraries: \<^verbatim>\<open>path/filepath\<close>, \<^verbatim>\<open>os\<close> and
  \<^verbatim>\<open>encoding/json\<close>. The first two are modelled below as functions on a
  directory tree; the third is a parameter of the operations. Every operation
  takes the world (driver, directory tree, log of events) and returns the new
  one; an operation that waits for a mutex somebody else holds does not return
  in a sequential run, which is the value \<open>None\<close>.
\<close>

subsection \<open>Values of the Go runtime\<close>

type_synonym bytes = string

datatype errno = ENOENT | ENOTDIR | EISDIR | ENOTEMPTY | EBUSY

text \<open>
  A Go \<^verbatim>\<open>error\<close>: the value of \<^verbatim>\<open>fmt.Errorf\<close>, an \<^verbatim>\<open>*fs.PathError\<close> with
  its operation, path and errno, or an error of the JSON codec.
\<close>

datatype error = ErrorString string | PathError string string errno | JSONError string

text \<open>
  \<^verbatim>\<open>encoding/json\<close> as the driver uses it: \<^verbatim>\<open>MarshalIndent(v, prefix, indent)\<close>
  returns the bytes or an error; \<^verbatim>\<open>Unmarshal(b, &v)\<close> returns its error and
  leaves the destination in the state given by the second component. The type
  \<open>'v\<close> stands for the values behind \<^verbatim>\<open>interface{}\<close>.
\<close>

record 'v json =
  MarshalIndent :: "'v \<Rightarrow> string \<Rightarrow> string \<Rightarrow> error + bytes"
  Unmarshal :: "bytes \<Rightarrow> 'v \<Rightarrow> error option \<times> 'v"

subsection \<open>The driver and its world\<close>

text \<open>
  \<^verbatim>\<open>type Driver struct { mutex sync.Mutex; mutexes map[string]*sync.Mutex; dir string }\<close>.
  A mutex is its state, \<open>True\<close> when held. The map owns the only pointer to each
  collection mutex, so a pointer is the key under which the mutex is stored.
\<close>

record Driver =
  mutex :: bool
  mutexes :: "string \<rightharpoonup> bool"
  dir :: string

text \<open>
  The directory tree: a regular file with its contents, or a directory with
  its entries. Names are the path components; permissions, links, quotas and
  limits on names are outside the model, so the only failures of a system call
  are the structural ones of \<open>errno\<close>.
\<close>

datatype node = File bytes | Dir "(string \<times> node) list"

datatype event =
    GuardLock | GuardUnlock
  | Lock string | Unlock string
  | Syscall string string

record world =
  drv :: Driver
  tree :: node
  cwd :: "string list"
  trace :: "event list"

definition emit :: "event \<Rightarrow> world \<Rightarrow> world" where
  "emit e w = w\<lparr>trace := trace w @ [e]\<rparr>"

subsection \<open>path/filepath (Unix)\<close>

text \<open>The elements of a path between its separators.\<close>

fun split_sep :: "string \<Rightarrow> string list" where
  "split_sep [] = [] # []"
| "split_sep (c # cs) =
     (if c = CHR ''/'' then [] # split_sep cs
      else (case split_sep cs of [] \<Rightarrow> [c] # [] | x # xs \<Rightarrow> (c # x) # xs))"

fun join_sep :: "string list \<Rightarrow> string" where
  "join_sep [] = []"
| "join_sep [x] = x"
| "join_sep (x # y # ys) = x @ CHR ''/'' # join_sep (y # ys)"

text \<open>
  One element of \<^verbatim>\<open>filepath.Clean\<close>'s scan; \<open>out\<close> is the output so far, last
  element first. An empty element and \<^verbatim>\<open>.\<close> are dropped; \<^verbatim>\<open>..\<close> removes the
  last element when there is one that is not \<^verbatim>\<open>..\<close>, is appended when the
  path is not rooted, and is dropped at the root.
\<close>

definition clean_step :: "bool \<Rightarrow> string list \<Rightarrow> string \<Rightarrow> string list" where
  "clean_step rooted out c =
     (if c = [] \<or> c = ''.'' then out
      else if c = ''..'' then
        (if out \<noteq> [] \<and> hd out \<noteq> ''..'' then tl out
         else if \<not> rooted then ''..'' # out
         else out)
      else c # out)"

definition Clean :: "string \<Rightarrow> string" where
  "Clean path =
     (if path = [] then ''.''
      else
        let rooted = (hd path = CHR ''/'');
            out = foldl (clean_step rooted) [] (split_sep path)
        in if rooted then CHR ''/'' # join_sep (rev out)
           else if out = [] then ''.''
           else join_sep (rev out))"

text \<open>
  \<^verbatim>\<open>filepath.Join\<close>: from the first non-empty element on, the elements are
  joined with the separator and the result is cleaned; with no non-empty
  element the result is the empty string.
\<close>

definition Join :: "string list \<Rightarrow> string" where
  "Join elem =
     (case dropWhile (\<lambda>e. e = []) elem of
        [] \<Rightarrow> []
      | e # es \<Rightarrow> Clean (join_sep (e # es)))"

subsection \<open>The os package on the directory tree\<close>

text \<open>
  Name resolution: a rooted path starts at the root, any other at the working
  directory; \<^verbatim>\<open>.\<close> stays, \<^verbatim>\<open>..\<close> steps up (the root is its own parent).
  The empty path names nothing. The driver only passes results of \<open>Join\<close>,
  where \<^verbatim>\<open>..\<close> can only lead a relative path.
\<close>

definition walk :: "string list \<Rightarrow> string \<Rightarrow> string list" where
  "walk st c =
     (if c = [] \<or> c = ''.'' then st
      else if c = ''..'' then tl st
      else c # st)"

definition namei :: "string list \<Rightarrow> string \<Rightarrow> errno + string list" where
  "namei wd path =
     (if path = [] then Inl ENOENT
      else Inr (rev (foldl walk (if hd path = CHR ''/'' then [] else rev wd)
                       (split_sep path))))"

fun lookup :: "node \<Rightarrow> string list \<Rightarrow> errno + node" where
  "lookup n [] = Inr n"
| "lookup (File b) (c # cs) = Inl ENOTDIR"
| "lookup (Dir es) (c # cs) =
     (case map_of es c of None \<Rightarrow> Inl ENOENT | Some n \<Rightarrow> lookup n cs)"

text \<open>What a path names: the node it resolves to, or the errno of the resolution.\<close>

definition node_at :: "world \<Rightarrow> string \<Rightarrow> errno + node" where
  "node_at w path =
     (case namei (cwd w) path of Inl e \<Rightarrow> Inl e | Inr cs \<Rightarrow> lookup (tree w) cs)"

text \<open>
  \<^verbatim>\<open>os.MkdirAll\<close>: every missing directory of the path is created; a regular
  file on the path is \<^verbatim>\<open>ENOTDIR\<close>, and then nothing has been created.
\<close>

fun mkdir_all :: "node \<Rightarrow> string list \<Rightarrow> errno + node" where
  "mkdir_all (File b) cs = Inl ENOTDIR"
| "mkdir_all (Dir es) [] = Inr (Dir es)"
| "mkdir_all (Dir es) (c # cs) =
     (case mkdir_all (case map_of es c of None \<Rightarrow> Dir [] | Some n \<Rightarrow> n) cs of
        Inl e \<Rightarrow> Inl e
      | Inr n' \<Rightarrow> Inr (Dir (AList.update c n' es)))"

text \<open>
  \<^verbatim>\<open>os.WriteFile\<close> opens with \<^verbatim>\<open>O_WRONLY|O_CREATE|O_TRUNC\<close>: the directory of
  the file must exist, a directory cannot be opened for writing, a missing file
  is created and an existing one is replaced by the new contents.
\<close>

fun write_file :: "node \<Rightarrow> string list \<Rightarrow> bytes \<Rightarrow> errno + node" where
  "write_file (File old) [] b = Inr (File b)"
| "write_file (Dir es) [] b = Inl EISDIR"
| "write_file (File old) (c # cs) b = Inl ENOTDIR"
| "write_file (Dir es) [c] b =
     (case map_of es c of
        None \<Rightarrow> Inr (Dir (AList.update c (File b) es))
      | Some (File old) \<Rightarrow> Inr (Dir (AList.update c (File b) es))
      | Some (Dir sub) \<Rightarrow> Inl EISDIR)"
| "write_file (Dir es) (c # c' # cs) b =
     (case map_of es c of
        None \<Rightarrow> Inl ENOENT
      | Some n \<Rightarrow>
          (case write_file n (c' # cs) b of
             Inl e \<Rightarrow> Inl e
           | Inr n' \<Rightarrow> Inr (Dir (AList.update c n' es))))"

text \<open>
  \<^verbatim>\<open>os.Remove\<close> unlinks a file or removes an empty directory.
\<close>

fun remove_node :: "node \<Rightarrow> string list \<Rightarrow> errno + node" where
  "remove_node n [] = Inl EBUSY"
| "remove_node (File old) (c # cs) = Inl ENOTDIR"
| "remove_node (Dir es) [c] =
     (case map_of es c of
        None \<Rightarrow> Inl ENOENT
      | Some (File old) \<Rightarrow> Inr (Dir (AList.delete c es))
      | Some (Dir sub) \<Rightarrow>
          (if sub = [] then Inr (Dir (AList.delete c es)) else Inl ENOTEMPTY))"
| "remove_node (Dir es) (c # c' # cs) =
     (case map_of es c of
        None \<Rightarrow> Inl ENOENT
      | Some n \<Rightarrow>
          (case remove_node n (c' # cs) of
             Inl e \<Rightarrow> Inl e
           | Inr n' \<Rightarrow> Inr (Dir (AList.update c n' es))))"

text \<open>
  The calls themselves. Each call of the package is logged as one event; a
  failure is the \<^verbatim>\<open>PathError\<close> Go builds from the operation, the path and the
  errno. The operation and the path that Go puts into the errors of
  \<^verbatim>\<open>MkdirAll\<close> and \<^verbatim>\<open>ReadDir\<close> depend on the prefix that fails and on the
  release; the model puts the path of the call there.
  \<^verbatim>\<open>os.Stat\<close> returns a \<^verbatim>\<open>FileInfo\<close>, of which \<^verbatim>\<open>IsDir\<close> is kept.
\<close>

definition os_Stat :: "string \<Rightarrow> world \<Rightarrow> (error + bool) \<times> world" where
  "os_Stat name w =
     (let w1 = emit (Syscall ''stat'' name) w
      in case node_at w name of
           Inl e \<Rightarrow> (Inl (PathError ''stat'' name e), w1)
         | Inr (File b) \<Rightarrow> (Inr False, w1)
         | Inr (Dir es) \<Rightarrow> (Inr True, w1))"

definition os_MkdirAll :: "string \<Rightarrow> world \<Rightarrow> error option \<times> world" where
  "os_MkdirAll path w =
     (let w1 = emit (Syscall ''mkdir'' path) w
      in case namei (cwd w) path of
           Inl e \<Rightarrow> (Some (PathError ''mkdir'' path e), w1)
         | Inr cs \<Rightarrow>
             (case mkdir_all (tree w) cs of
                Inl e \<Rightarrow> (Some (PathError ''mkdir'' path e), w1)
              | Inr t \<Rightarrow> (None, w1\<lparr>tree := t\<rparr>)))"

definition os_WriteFile :: "string \<Rightarrow> bytes \<Rightarrow> world \<Rightarrow> error option \<times> world" where
  "os_WriteFile name data w =
     (let w1 = emit (Syscall ''open'' name) w
      in case namei (cwd w) name of
           Inl e \<Rightarrow> (Some (PathError ''open'' name e), w1)
         | Inr cs \<Rightarrow>
             (case write_file (tree w) cs data of
                Inl e \<Rightarrow> (Some (PathError ''open'' name e), w1)
              | Inr t \<Rightarrow> (None, w1\<lparr>tree := t\<rparr>)))"

definition os_ReadFile :: "string \<Rightarrow> world \<Rightarrow> (error + bytes) \<times> world" where
  "os_ReadFile name w =
     (let w1 = emit (Syscall ''open'' name) w
      in case node_at w name of
           Inl e \<Rightarrow> (Inl (PathError ''open'' name e), w1)
         | Inr (File b) \<Rightarrow> (Inr b, w1)
         | Inr (Dir es) \<Rightarrow> (Inl (PathError ''read'' name EISDIR), w1))"

text \<open>\<^verbatim>\<open>os.ReadDir\<close> returns the entries sorted by file name.\<close>

definition os_ReadDir :: "string \<Rightarrow> world \<Rightarrow> (error + string list) \<times> world" where
  "os_ReadDir name w =
     (let w1 = emit (Syscall ''open'' name) w
      in case node_at w name of
           Inl e \<Rightarrow> (Inl (PathError ''open'' name e), w1)
         | Inr (File b) \<Rightarrow> (Inl (PathError ''readdirent'' name ENOTDIR), w1)
         | Inr (Dir es) \<Rightarrow> (Inr (sort (map fst es)), w1))"

definition os_Remove :: "string \<Rightarrow> world \<Rightarrow> error option \<times> world" where
  "os_Remove name w =
     (let w1 = emit (Syscall ''remove'' name) w
      in case namei (cwd w) name of
           Inl e \<Rightarrow> (Some (PathError ''remove'' name e), w1)
         | Inr cs \<Rightarrow>
             (case remove_node (tree w) cs of
                Inl e \<Rightarrow> (Some (PathError ''remove'' name e), w1)
              | Inr t \<Rightarrow> (None, w1\<lparr>tree := t\<rparr>)))"

subsection \<open>sync.Mutex\<close>

text \<open>
  \<^verbatim>\<open>Lock\<close> on a held mutex waits; in a run of one operation nobody releases
  it, so the call does not return. \<^verbatim>\<open>Unlock\<close> of a mutex that is not held is
  a fatal error of the runtime.
\<close>

definition guard_Lock :: "world \<Rightarrow> world option" where
  "guard_Lock w =
     (if mutex (drv w) then None
      else Some (emit GuardLock (w\<lparr>drv := (drv w)\<lparr>mutex := True\<rparr>\<rparr>)))"

definition guard_Unlock :: "world \<Rightarrow> world option" where
  "guard_Unlock w =
     (if mutex (drv w) then Some (emit GuardUnlock (w\<lparr>drv := (drv w)\<lparr>mutex := False\<rparr>\<rparr>))
      else None)"

definition Mutex_Lock :: "string \<Rightarrow> world \<Rightarrow> world option" where
  "Mutex_Lock m w =
     (case mutexes (drv w) m of
        Some False \<Rightarrow>
          Some (emit (Lock m) (w\<lparr>drv := (drv w)\<lparr>mutexes := (mutexes (drv w))(m \<mapsto> True)\<rparr>\<rparr>))
      | _ \<Rightarrow> None)"

definition Mutex_Unlock :: "string \<Rightarrow> world \<Rightarrow> world option" where
  "Mutex_Unlock m w =
     (case mutexes (drv w) m of
        Some True \<Rightarrow>
          Some (emit (Unlock m) (w\<lparr>drv := (drv w)\<lparr>mutexes := (mutexes (drv w))(m \<mapsto> False)\<rparr>\<rparr>))
      | _ \<Rightarrow> None)"

subsection \<open>The driver's operations\<close>

text \<open>
  \<^verbatim>\<open>New\<close> cleans the directory name, builds the driver and creates the
  directory when \<^verbatim>\<open>os.Stat\<close> fails.
\<close>

definition New :: "string \<Rightarrow> world \<Rightarrow> error option \<times> world" where
  "New d w =
     (let d' = Clean d;
          w0 = w\<lparr>drv := \<lparr>mutex = False, mutexes = Map.empty, dir = d'\<rparr>\<rparr>;
          (st, w1) = os_Stat d' w0
      in case st of
           Inl err \<Rightarrow> os_MkdirAll d' w1
         | Inr info \<Rightarrow> (None, w1))"

text \<open>
  \<^verbatim>\<open>getOrCreateMutex\<close> looks the collection up under the guard, registers a new
  free mutex when there is none, and releases the guard on return.
\<close>

definition getOrCreateMutex :: "string \<Rightarrow> world \<Rightarrow> (string \<times> world) option" where
  "getOrCreateMutex collection w =
     (case guard_Lock w of
        None \<Rightarrow> None
      | Some w1 \<Rightarrow>
          let w2 = (case mutexes (drv w1) collection of
                      None \<Rightarrow> w1\<lparr>drv := (drv w1)\<lparr>mutexes := (mutexes (drv w1))(collection \<mapsto> False)\<rparr>\<rparr>
                    | Some m \<Rightarrow> w1)
          in (case guard_Unlock w2 of
                None \<Rightarrow> None
              | Some w3 \<Rightarrow> Some (collection, w3)))"

text \<open>
  The part of \<^verbatim>\<open>Write\<close> that runs with the collection mutex held (lines 56
  to 68): the two joins, \<^verbatim>\<open>MkdirAll\<close>, \<^verbatim>\<open>MarshalIndent\<close> with the empty prefix
  and a tab as indent, \<^verbatim>\<open>WriteFile\<close>.
\<close>

definition Write_locked :: "'v json \<Rightarrow> string \<Rightarrow> string \<Rightarrow> 'v \<Rightarrow> world \<Rightarrow> error option \<times> world" where
  "Write_locked js collection resource v w =
     (let dir' = Join [dir (drv w), collection];
          fnlPath = Join [dir', resource @ ''.json''];
          (err, w1) = os_MkdirAll dir' w
      in case err of
           Some e \<Rightarrow> (Some e, w1)
         | None \<Rightarrow>
             (case MarshalIndent js v '''' [CHR 0x09] of
                Inl e \<Rightarrow> (Some e, w1)
              | Inr b \<Rightarrow> os_WriteFile fnlPath b w1))"

text \<open>
  \<^verbatim>\<open>Write\<close>: the check of the two names, the collection mutex, the locked
  part, and the deferred \<^verbatim>\<open>Unlock\<close> on every return of the locked part.
\<close>

definition Write :: "'v json \<Rightarrow> string \<Rightarrow> string \<Rightarrow> 'v \<Rightarrow> world \<Rightarrow> (error option \<times> world) option" where
  "Write js collection resource v w =
     (if collection = '''' \<or> resource = '''' then
        Some (Some (ErrorString ''missing collection or resource''), w)
      else
        case getOrCreateMutex collection w of
          None \<Rightarrow> None
        | Some (m, w1) \<Rightarrow>
            (case Mutex_Lock m w1 of
               None \<Rightarrow> None
             | Some w2 \<Rightarrow>
                 let (err, w3) = Write_locked js collection resource v w2
                 in (case Mutex_Unlock m w3 of
                       None \<Rightarrow> None
                     | Some w4 \<Rightarrow> Some (err, w4))))"

text \<open>
  \<^verbatim>\<open>Read\<close> returns its error and the destination. It touches no mutex.
\<close>

definition Read :: "'v json \<Rightarrow> string \<Rightarrow> string \<Rightarrow> 'v \<Rightarrow> world \<Rightarrow> (error option \<times> 'v) \<times> world" where
  "Read js collection resource v w =
     (let path = Join [dir (drv w), collection, resource @ ''.json''];
          (st, w1) = os_Stat path w
      in case st of
           Inl err \<Rightarrow> ((Some err, v), w1)
         | Inr info \<Rightarrow>
             (let (rd, w2) = os_ReadFile path w1
              in case rd of
                   Inl err \<Rightarrow> ((Some err, v), w2)
                 | Inr b \<Rightarrow> (Unmarshal js b v, w2)))"

text \<open>
  The loop of \<^verbatim>\<open>ReadAll\<close> over the entries: the first read that fails ends
  the call with its error.
\<close>

fun ReadAll_loop :: "string \<Rightarrow> string list \<Rightarrow> bytes list \<Rightarrow> world \<Rightarrow> (error + bytes list) \<times> world" where
  "ReadAll_loop dir' [] records w = (Inr records, w)"
| "ReadAll_loop dir' (file # files) records w =
     (let (rd, w1) = os_ReadFile (Join [dir', file]) w
      in case rd of
           Inl err \<Rightarrow> (Inl err, w1)
         | Inr b \<Rightarrow> ReadAll_loop dir' files (records @ [b]) w1)"

text \<open>
  \<^verbatim>\<open>ReadAll\<close>: the error of \<^verbatim>\<open>os.ReadDir\<close> is dropped (line 93), and the loop
  then runs over no entry.
\<close>

definition ReadAll :: "string \<Rightarrow> world \<Rightarrow> (error + bytes list) \<times> world" where
  "ReadAll collection w =
     (let dir' = Join [dir (drv w), collection];
          (st, w1) = os_Stat dir' w
      in case st of
           Inl err \<Rightarrow> (Inl err, w1)
         | Inr info \<Rightarrow>
             (let (rd, w2) = os_ReadDir dir' w1;
                  files = (case rd of Inl err \<Rightarrow> [] | Inr names \<Rightarrow> names)
              in ReadAll_loop dir' files [] w2))"

text \<open>
  \<^verbatim>\<open>Delete\<close>: the path, the collection mutex, \<^verbatim>\<open>os.Remove\<close>, the deferred
  \<^verbatim>\<open>Unlock\<close>. There is no check of the names.
\<close>

definition Delete :: "string \<Rightarrow> string \<Rightarrow> world \<Rightarrow> (error option \<times> world) option" where
  "Delete collection resource w =
     (let path = Join [dir (drv w), collection, resource @ ''.json'']
      in case getOrCreateMutex collection w of
           None \<Rightarrow> None
         | Some (m, w1) \<Rightarrow>
             (case Mutex_Lock m w1 of
                None \<Rightarrow> None
              | Some w2 \<Rightarrow>
                  let (err, w3) = os_Remove path w2
                  in (case Mutex_Unlock m w3 of
                        None \<Rightarrow> None
                      | Some w4 \<Rightarrow> Some (err, w4))))"

subsection \<open>Notions used in the proofs\<close>

text \<open>
  The output of \<open>Clean\<close>'s scan is in normal form: no empty element, no
  \<^verbatim>\<open>.\<close>, no separator inside an element, and \<^verbatim>\<open>..\<close> only at the bottom of
  a path that is not rooted.
\<close>

fun clean_out :: "bool \<Rightarrow> string list \<Rightarrow> bool" where
  "clean_out rooted [] = True"
| "clean_out rooted (x # xs) =
     (x \<noteq> [] \<and> x \<noteq> ''.'' \<and> CHR ''/'' \<notin> set x \<and>
      (if x = ''..'' then \<not> rooted \<and> (\<forall>y\<in>set xs. y = ''..'') else clean_out rooted xs))"

text \<open>The scan of \<open>Clean\<close> on its own.\<close>

definition scan :: "string \<Rightarrow> string list" where
  "scan path = foldl (clean_step (hd path = CHR ''/'')) [] (split_sep path)"

text \<open>
  The world once \<^verbatim>\<open>getOrCreateMutex\<close> has returned and the collection mutex is
  taken, and the world once the deferred \<^verbatim>\<open>Unlock\<close> has run.
\<close>

definition acquired :: "string \<Rightarrow> world \<Rightarrow> world" where
  "acquired c w =
     w\<lparr>drv := (drv w)\<lparr>mutex := False, mutexes := (mutexes (drv w))(c \<mapsto> True)\<rparr>,
       trace := trace w @ [GuardLock, GuardUnlock, Lock c]\<rparr>"

definition released :: "string \<Rightarrow> world \<Rightarrow> world" where
  "released c w =
     w\<lparr>drv := (drv w)\<lparr>mutexes := (mutexes (drv w))(c \<mapsto> False)\<rparr>,
       trace := trace w @ [Unlock c]\<rparr>"

text \<open>The effect of the locked part of \<^verbatim>\<open>Write\<close> on the directory tree.\<close>

definition write_fs ::
  "'v json \<Rightarrow> string list \<Rightarrow> string \<Rightarrow> string \<Rightarrow> string \<Rightarrow> 'v \<Rightarrow> node \<Rightarrow> error option \<times> node" where
  "write_fs js wd d0 c r v t =
     (let d = Join [d0, c]; p = Join [d, r @ ''.json'']
      in case namei wd d of
           Inl e \<Rightarrow> (Some (PathError ''mkdir'' d e), t)
         | Inr ds \<Rightarrow>
        (case mkdir_all t ds of
           Inl e \<Rightarrow> (Some (PathError ''mkdir'' d e), t)
         | Inr t1 \<Rightarrow>
        (case MarshalIndent js v '''' [CHR 0x09] of
           Inl e \<Rightarrow> (Some e, t1)
         | Inr b \<Rightarrow>
        (case namei wd p of
           Inl e \<Rightarrow> (Some (PathError ''open'' p e), t1)
         | Inr cs \<Rightarrow>
        (case write_file t1 cs b of
           Inl e \<Rightarrow> (Some (PathError ''open'' p e), t1)
         | Inr t2 \<Rightarrow> (None, t2))))))"

fun is_syscall :: "event \<Rightarrow> bool" where
  "is_syscall (Syscall op path) = True"
| "is_syscall e = False"

text \<open>
  A regular file stands on a path: at the path itself or at a directory it
  runs through, which is when \<^verbatim>\<open>os.MkdirAll\<close> cannot make the path a directory.
\<close>

fun file_on_path :: "node \<Rightarrow> string list \<Rightarrow> bool" where
  "file_on_path (File b) cs = True"
| "file_on_path (Dir es) [] = False"
| "file_on_path (Dir es) (c # cs) =
     (case map_of es c of None \<Rightarrow> False | Some n \<Rightarrow> file_on_path n cs)"

definition blocked_by_file :: "world \<Rightarrow> string \<Rightarrow> bool" where
  "blocked_by_file w path =
     (case namei (cwd w) path of Inl e \<Rightarrow> False | Inr cs \<Rightarrow> file_on_path (tree w) cs)"

text \<open>
  The not-found error of the operations is the error of their existence check,
  a failed \<^verbatim>\<open>os.Stat\<close>: no entry of that name (\<^verbatim>\<open>ENOENT\<close>), or a regular file
  where the path needs a directory (\<^verbatim>\<open>ENOTDIR\<close>).
\<close>

fun NotFoundError :: "error \<Rightarrow> bool" where
  "NotFoundError (PathError op path e) = (op = ''stat'' \<and> (e = ENOENT \<or> e = ENOTDIR))"
| "NotFoundError err = False"

text \<open>What \<^verbatim>\<open>ReadAll\<close> reads for one entry of the directory.\<close>

definition read_entry :: "world \<Rightarrow> string \<Rightarrow> string \<Rightarrow> error + bytes" where
  "read_entry w dir' file = fst (os_ReadFile (Join [dir', file]) w)"

subsection \<open>Concrete inputs\<close>

text \<open>
  \<^verbatim>\<open>encoding/json\<close> at the Go type \<^verbatim>\<open>bool\<close>: the two literals on output; on
  input a literal between optional white space, \<^verbatim>\<open>null\<close> leaving the
  destination as it is.
\<close>

definition json_space :: "char \<Rightarrow> bool" where
  "json_space c = (c = CHR '' '' \<or> c = CHR 0x09 \<or> c = CHR 0x0A \<or> c = CHR 0x0D)"

definition bool_json :: "bool json" where
  "bool_json =
     \<lparr>MarshalIndent = (\<lambda>v prefix indent. Inr (if v then ''true'' else ''false'')),
      Unmarshal = (\<lambda>b dst.
        let t = rev (dropWhile json_space (rev (dropWhile json_space b)))
        in if t = ''true'' then (None, True)
           else if t = ''false'' then (None, False)
           else if t = ''null'' then (None, dst)
           else (Some (JSONError ''cannot unmarshal into Go value of type bool''), dst))\<rparr>"

text \<open>
  An empty root directory that is also the working directory, and the store
  \<^verbatim>\<open>New("./data")\<close> leaves there.
\<close>

definition boot :: world where
  "boot = \<lparr>drv = \<lparr>mutex = False, mutexes = Map.empty, dir = []\<rparr>,
            tree = Dir [], cwd = [], trace = []\<rparr>"

text \<open>
  The store with the given collection mutexes, the given entries in its
  directory and the given events since \<^verbatim>\<open>New\<close>.
\<close>

definition store :: "(string \<rightharpoonup> bool) \<Rightarrow> (string \<times> node) list \<Rightarrow> event list \<Rightarrow> world" where
  "store ms entries evs =
     \<lparr>drv = \<lparr>mutex = False, mutexes = ms, dir = ''data''\<rparr>,
      tree = Dir [(''data'', Dir entries)], cwd = [],
      trace = [Syscall ''stat'' ''data'', Syscall ''mkdir'' ''data''] @ evs\<rparr>"

definition fresh :: world where
  "fresh = store Map.empty [] []"

text \<open>The store after \<^verbatim>\<open>Write("users", "a", true)\<close>.\<close>

definition fresh_a :: world where
  "fresh_a =
     store [''users'' \<mapsto> False] [(''users'', Dir [(''a.json'', File ''true'')])]
       [GuardLock, GuardUnlock, Lock ''users'', Syscall ''mkdir'' ''data/users'',
        Syscall ''open'' ''data/users/a.json'', Unlock ''users'']"

text \<open>The store after \<^verbatim>\<open>Write("users", "a/b", true)\<close>, which fails.\<close>

definition fresh_ab :: world where
  "fresh_ab =
     store [''users'' \<mapsto> False] [(''users'', Dir [])]
       [GuardLock, GuardUnlock, Lock ''users'', Syscall ''mkdir'' ''data/users'',
        Syscall ''open'' ''data/users/a/b.json'', Unlock ''users'']"

text \<open>
  The store after \<^verbatim>\<open>Write("users/x.json", "y", true)\<close>, where
  \<^verbatim>\<open>data/users/x.json\<close> is a directory; then after \<^verbatim>\<open>Write("users", "x", true)\<close>
  and after \<^verbatim>\<open>Delete("users", "x")\<close>, which both fail.
\<close>

definition nested_evs :: "event list" where
  "nested_evs =
     [GuardLock, GuardUnlock, Lock ''users/x.json'', Syscall ''mkdir'' ''data/users/x.json'',
      Syscall ''open'' ''data/users/x.json/y.json'', Unlock ''users/x.json'']"

definition nested_entries :: "(string \<times> node) list" where
  "nested_entries = [(''users'', Dir [(''x.json'', Dir [(''y.json'', File ''true'')])])]"

definition nested :: world where
  "nested = store [''users/x.json'' \<mapsto> False] nested_entries nested_evs"

definition nested_w :: world where
  "nested_w =
     store [''users/x.json'' \<mapsto> False, ''users'' \<mapsto> False] nested_entries
       (nested_evs @
        [GuardLock, GuardUnlock, Lock ''users'', Syscall ''mkdir'' ''data/users'',
         Syscall ''open'' ''data/users/x.json'', Unlock ''users''])"

definition nested_wd :: world where
  "nested_wd =
     store [''users/x.json'' \<mapsto> False, ''users'' \<mapsto> False] nested_entries
       (nested_evs @
        [GuardLock, GuardUnlock, Lock ''users'', Syscall ''mkdir'' ''data/users'',
         Syscall ''open'' ''data/users/x.json'', Unlock ''users'',
         GuardLock, GuardUnlock, Lock ''users'', Syscall ''remove'' ''data/users/x.json'',
         Unlock ''users''])"

text \<open>
  The store after \<^verbatim>\<open>Write(".", "x", true)\<close>, which puts \<^verbatim>\<open>x.json\<close> next to the
  collections, and after \<^verbatim>\<open>Delete("", "x")\<close>; the store after \<^verbatim>\<open>Write("users", "a", true)\<close>
  and \<^verbatim>\<open>Delete("users", "a")\<close>; a store whose record is not JSON; a store whose
  collection holds a directory.
\<close>

definition stray :: world where
  "stray =
     store [''.'' \<mapsto> False] [(''x.json'', File ''true'')]
       [GuardLock, GuardUnlock, Lock ''.'', Syscall ''mkdir'' ''data'',
        Syscall ''open'' ''data/x.json'', Unlock ''.'']"

definition stray_gone :: world where
  "stray_gone =
     store [''.'' \<mapsto> False, '''' \<mapsto> False] []
       [GuardLock, GuardUnlock, Lock ''.'', Syscall ''mkdir'' ''data'',
        Syscall ''open'' ''data/x.json'', Unlock ''.'',
        GuardLock, GuardUnlock, Lock '''', Syscall ''remove'' ''data/x.json'', Unlock '''']"

definition fresh_a_gone :: world where
  "fresh_a_gone =
     store [''users'' \<mapsto> False] [(''users'', Dir [])]
       [GuardLock, GuardUnlock, Lock ''users'', Syscall ''mkdir'' ''data/users'',
        Syscall ''open'' ''data/users/a.json'', Unlock ''users'',
        GuardLock, GuardUnlock, Lock ''users'', Syscall ''remove'' ''data/users/a.json'',
        Unlock ''users'']"

definition garbled :: world where
  "garbled = store Map.empty [(''users'', Dir [(''a.json'', File ''tru'')])] []"

definition only_sub :: world where
  "only_sub = store Map.empty [(''users'', Dir [(''sub'', Dir [])])] []"

section \<open>Properties\<close>

subsection \<open>Paths\<close>

lemma split_sep_nonempty: "split_sep p \<noteq> []"
  by (induction p) (auto split: list.splits)

lemma split_sep_append: "split_sep (a @ CHR ''/'' # b) = split_sep a @ split_sep b"
proof (induction a)
  case Nil
  then show ?case by simp
next
  case (Cons x a)
  then show ?case using split_sep_nonempty[of a] by (cases "split_sep a") (auto split: list.splits)
qed

lemma split_sep_no_sep: "c \<in> set (split_sep p) \<Longrightarrow> CHR ''/'' \<notin> set c"
  by (induction p arbitrary: c) (auto split: list.splits if_splits)

lemma split_sep_plain: "CHR ''/'' \<notin> set c \<Longrightarrow> split_sep c = [c]"
  by (induction c) auto

lemma split_join_sep:
  "cs \<noteq> [] \<Longrightarrow> \<forall>c\<in>set cs. CHR ''/'' \<notin> set c \<Longrightarrow> split_sep (join_sep cs) = cs"
proof (induction cs rule: join_sep.induct)
  case 1
  then show ?case by simp
next
  case (2 x)
  then show ?case by (simp add: split_sep_plain)
next
  case (3 x y ys)
  then show ?case by (simp add: split_sep_append split_sep_plain)
qed

lemma clean_out_all_dotdot: "\<not> rooted \<Longrightarrow> \<forall>y\<in>set xs. y = ''..'' \<Longrightarrow> clean_out rooted xs"
  by (induction xs) auto

lemma clean_out_no_sep: "clean_out rooted out \<Longrightarrow> c \<in> set out \<Longrightarrow> CHR ''/'' \<notin> set c \<and> c \<noteq> []"
proof (induction out)
  case Nil
  then show ?case by simp
next
  case (Cons x xs)
  from Cons.prems(1) have hx: "x \<noteq> []" "CHR ''/'' \<notin> set x" by simp_all
  show ?case
  proof (cases "c = x")
    case True
    with hx show ?thesis by simp
  next
    case False
    with Cons.prems(2) have cin: "c \<in> set xs" by simp
    show ?thesis
    proof (cases "x = ''..''")
      case True
      with Cons.prems(1) have "\<forall>y\<in>set xs. y = ''..''" by simp
      with cin have "c = ''..''" by blast
      then show ?thesis by simp
    next
      case False
      with Cons.prems(1) have "clean_out rooted xs" by simp
      with Cons.IH cin show ?thesis by blast
    qed
  qed
qed

lemma clean_step_out:
  assumes "clean_out rooted out" and "CHR ''/'' \<notin> set c"
  shows "clean_out rooted (clean_step rooted out c)"
proof (cases out)
  case Nil
  with assms show ?thesis by (auto simp: clean_step_def)
next
  case (Cons x xs)
  with assms show ?thesis
    by (auto simp: clean_step_def clean_out_all_dotdot split: if_splits)
qed

lemma foldl_clean_out:
  "clean_out rooted out \<Longrightarrow> \<forall>c\<in>set cs. CHR ''/'' \<notin> set c \<Longrightarrow>
   clean_out rooted (foldl (clean_step rooted) out cs)"
  by (induction cs arbitrary: out) (auto simp: clean_step_out)

lemma clean_replay: "clean_out rooted out \<Longrightarrow> foldl (clean_step rooted) [] (rev out) = out"
proof (induction out)
  case Nil
  then show ?case by simp
next
  case (Cons x xs)
  then have "clean_out rooted xs"
    by (auto simp: clean_out_all_dotdot split: if_splits)
  with Cons have "foldl (clean_step rooted) [] (rev xs) = xs" by simp
  then have "foldl (clean_step rooted) [] (rev (x # xs)) = clean_step rooted xs x" by simp
  also from Cons.prems have "\<dots> = x # xs"
    by (cases xs) (auto simp: clean_step_def split: if_splits)
  finally show ?case .
qed

lemma hd_join_sep: "cs \<noteq> [] \<Longrightarrow> hd cs \<noteq> [] \<Longrightarrow> hd (join_sep cs) = hd (hd cs) \<and> join_sep cs \<noteq> []"
  by (induction cs rule: join_sep.induct) auto

lemma scan_clean_out: "clean_out (hd path = CHR ''/'') (scan path)"
  unfolding scan_def by (rule foldl_clean_out) (auto simp: split_sep_no_sep)

lemma Clean_scan:
  "path \<noteq> [] \<Longrightarrow> Clean path =
     (if hd path = CHR ''/'' then CHR ''/'' # join_sep (rev (scan path))
      else if scan path = [] then ''.'' else join_sep (rev (scan path)))"
  by (simp add: Clean_def scan_def Let_def)

lemma Clean_nonempty: "Clean path \<noteq> []"
proof (cases "path = []")
  case True
  then show ?thesis by (simp add: Clean_def)
next
  case False
  show ?thesis
  proof (cases "hd path = CHR ''/'' \<or> scan path = []")
    case True
    with False show ?thesis by (auto simp: Clean_scan)
  next
    case False
    then have ne: "rev (scan path) \<noteq> []" by simp
    have "hd (rev (scan path)) \<in> set (scan path)" using ne by (metis hd_in_set set_rev)
    then have "hd (rev (scan path)) \<noteq> []" using clean_out_no_sep[OF scan_clean_out] by blast
    with ne have "join_sep (rev (scan path)) \<noteq> []" using hd_join_sep by blast
    with False \<open>path \<noteq> []\<close> show ?thesis by (simp add: Clean_scan)
  qed
qed

lemma Clean_rooted: "path \<noteq> [] \<Longrightarrow> (hd (Clean path) = CHR ''/'') = (hd path = CHR ''/'')"
proof (cases "hd path = CHR ''/'' \<or> scan path = []")
  case True
  assume "path \<noteq> []"
  with True show ?thesis by (auto simp: Clean_scan)
next
  case False
  assume p: "path \<noteq> []"
  from False have ne: "rev (scan path) \<noteq> []" by simp
  have mem: "hd (rev (scan path)) \<in> set (scan path)" using ne by (metis hd_in_set set_rev)
  then have h: "hd (rev (scan path)) \<noteq> []" "CHR ''/'' \<notin> set (hd (rev (scan path)))"
    using clean_out_no_sep[OF scan_clean_out] by blast+
  from h have "hd (hd (rev (scan path))) \<noteq> CHR ''/''"
    by (cases "hd (rev (scan path))") auto
  with ne h have "hd (join_sep (rev (scan path))) \<noteq> CHR ''/''" using hd_join_sep by metis
  with False p show ?thesis by (simp add: Clean_scan)
qed

lemma scan_rooted_cons: "scan (CHR ''/'' # s) = foldl (clean_step True) [] (split_sep s)"
  by (simp add: scan_def clean_step_def)

lemma scan_Clean: assumes "path \<noteq> []" shows "scan (Clean path) = scan path"
proof -
  let ?r = "hd path = CHR ''/''"
  have co: "clean_out ?r (scan path)" by (rule scan_clean_out)
  have ns: "\<forall>c\<in>set (rev (scan path)). CHR ''/'' \<notin> set c"
    using clean_out_no_sep[OF co] by auto
  have r: "(hd (Clean path) = CHR ''/'') = ?r" using assms by (rule Clean_rooted)
  show ?thesis
  proof (cases "scan path = []")
    case True
    with assms show ?thesis
      by (auto simp: Clean_scan scan_def[of "''/''"] scan_def[of "''.''"] clean_step_def)
  next
    case False
    then have sj: "split_sep (join_sep (rev (scan path))) = rev (scan path)"
      using ns by (simp add: split_join_sep)
    show ?thesis
    proof (cases ?r)
      case True
      then have "Clean path = CHR ''/'' # join_sep (rev (scan path))"
        using assms by (simp add: Clean_scan)
      then have "scan (Clean path) = scan (CHR ''/'' # join_sep (rev (scan path)))"
        by (simp only:)
      also have "\<dots> = foldl (clean_step True) [] (split_sep (join_sep (rev (scan path))))"
        by (rule scan_rooted_cons)
      also have "\<dots> = foldl (clean_step True) [] (rev (scan path))"
        by (simp only: sj)
      also have "\<dots> = scan path" using co True by (simp add: clean_replay)
      finally show ?thesis .
    next
      case F: False
      then have c: "Clean path = join_sep (rev (scan path))"
        using assms False by (simp add: Clean_scan)
      have "scan (Clean path) = foldl (clean_step (hd (Clean path) = CHR ''/'')) [] (split_sep (Clean path))"
        by (simp add: scan_def)
      also have "\<dots> = foldl (clean_step False) [] (rev (scan path))"
        using r F by (simp add: c sj)
      also have "\<dots> = scan path" using co F by (simp add: clean_replay)
      finally show ?thesis .
    qed
  qed
qed

lemma scan_append:
  "a \<noteq> [] \<Longrightarrow> scan (a @ CHR ''/'' # b) = foldl (clean_step (hd a = CHR ''/'')) (scan a) (split_sep b)"
  by (simp add: scan_def split_sep_append)

lemma Clean_Clean_append:
  assumes "a \<noteq> []" shows "Clean (Clean a @ CHR ''/'' # b) = Clean (a @ CHR ''/'' # b)"
proof -
  have ne: "Clean a \<noteq> []" by (rule Clean_nonempty)
  have r: "(hd (Clean a) = CHR ''/'') = (hd a = CHR ''/'')" using assms by (rule Clean_rooted)
  have s: "scan (Clean a @ CHR ''/'' # b) = scan (a @ CHR ''/'' # b)"
    using assms ne r by (simp add: scan_append scan_Clean)
  have h: "hd (Clean a @ CHR ''/'' # b) = hd (Clean a)" "hd (a @ CHR ''/'' # b) = hd a"
    using assms ne by simp_all
  show ?thesis
    using s r h by (simp add: Clean_scan)
qed

lemma Join_Join: "Join [Join [d, c], x] = Join [d, c, x]"
proof (cases "d = []")
  case True
  show ?thesis
  proof (cases "c = []")
    case True
    with \<open>d = []\<close> show ?thesis by (simp add: Join_def)
  next
    case False
    with \<open>d = []\<close> show ?thesis
      using Clean_nonempty[of c] Clean_Clean_append[of c x]
      by (simp add: Join_def split: list.splits)
  qed
next
  case False
  then show ?thesis
    using Clean_nonempty[of "d @ CHR ''/'' # c"] Clean_Clean_append[of "d @ CHR ''/'' # c" x]
    by (simp add: Join_def split: list.splits)
qed

lemma walk_split_Clean:
  assumes "y \<noteq> []"
  shows "foldl walk st (split_sep (Clean y)) = foldl walk st (rev (scan y))"
proof (cases "scan y = []")
  case True
  with assms show ?thesis by (auto simp: Clean_scan walk_def)
next
  case False
  have co: "clean_out (hd y = CHR ''/'') (scan y)" by (rule scan_clean_out)
  have ns: "\<forall>c\<in>set (rev (scan y)). CHR ''/'' \<notin> set c"
    using clean_out_no_sep[OF co] by auto
  from False have sj: "split_sep (join_sep (rev (scan y))) = rev (scan y)"
    using ns by (simp add: split_join_sep)
  show ?thesis
  proof (cases "hd y = CHR ''/''")
    case True
    with assms have "Clean y = CHR ''/'' # join_sep (rev (scan y))" by (simp add: Clean_scan)
    then have "split_sep (Clean y) = [] # rev (scan y)" by (simp add: sj)
    then show ?thesis by (simp add: walk_def)
  next
    case F: False
    with assms False have "Clean y = join_sep (rev (scan y))" by (simp add: Clean_scan)
    then show ?thesis by (simp add: sj)
  qed
qed

lemma Clean_idem: "Clean (Clean y) = Clean y"
proof (cases "y = []")
  case True
  then show ?thesis by (simp add: Clean_def clean_step_def)
next
  case False
  have ne: "Clean y \<noteq> []" by (rule Clean_nonempty)
  show ?thesis
    using False ne Clean_rooted[OF False] scan_Clean[OF False]
    by (simp add: Clean_scan[OF ne]) (simp add: Clean_scan[OF False])
qed

lemma namei_Clean:
  assumes "y \<noteq> []"
  shows "namei wd (Clean y) =
    Inr (rev (foldl walk (if hd y = CHR ''/'' then [] else rev wd) (rev (scan y))))"
  using assms Clean_nonempty[of y] Clean_rooted[OF assms]
  by (simp add: namei_def walk_split_Clean)

lemma split_sep_tail:
  "CHR ''/'' \<notin> set b \<Longrightarrow>
   split_sep (a @ b) = butlast (split_sep a) @ [last (split_sep a) @ b]"
proof (induction a)
  case Nil
  then show ?case by (simp add: split_sep_plain)
next
  case (Cons c a)
  then show ?case
    using split_sep_nonempty[of a] split_sep_nonempty[of "a @ b"]
    by (cases "split_sep a") (auto split: list.splits)
qed

lemma scan_last:
  assumes "split_sep z = ys @ [x]" and "x \<noteq> []" "x \<noteq> ''.''" "x \<noteq> ''..''"
  shows "\<exists>out. scan z = x # out"
  using assms by (simp add: scan_def clean_step_def)

lemma namei_json_nonempty:
  assumes "z = a @ ''.json''"
  shows "\<exists>cs. namei wd (Clean z) = Inr cs \<and> cs \<noteq> []"
proof -
  have z: "z \<noteq> []" using assms by simp
  let ?x = "last (split_sep a) @ ''.json''"
  have sp: "split_sep z = butlast (split_sep a) @ [?x]"
    unfolding assms by (rule split_sep_tail) simp
  have len: "5 \<le> length ?x" by simp
  have x1: "?x \<noteq> []" by simp
  have x2: "?x \<noteq> ''.''"
  proof
    assume "?x = ''.''"
    then have "length ?x = length ''.''" by (rule arg_cong)
    with len show False by simp
  qed
  have x3: "?x \<noteq> ''..''"
  proof
    assume "?x = ''..''"
    then have "length ?x = length ''..''" by (rule arg_cong)
    with len show False by simp
  qed
  from x1 x2 x3 obtain out where "scan z = ?x # out" using scan_last[OF sp] by blast
  then show ?thesis
    by (simp add: namei_Clean[OF z] walk_def)
qed

lemma record_path_resolves:
  "\<exists>cs. namei wd (Join [d0, c, r @ ''.json'']) = Inr cs \<and> cs \<noteq> []"
proof -
  have "\<exists>a. Join [d0, c, r @ ''.json''] = Clean (a @ ''.json'')"
  proof (cases "d0 = []")
    case True
    show ?thesis
    proof (cases "c = []")
      case True
      with \<open>d0 = []\<close> have "Join [d0, c, r @ ''.json''] = Clean (r @ ''.json'')"
        by (simp add: Join_def split: list.splits)
      then show ?thesis by blast
    next
      case False
      with \<open>d0 = []\<close> have "Join [d0, c, r @ ''.json''] = Clean ((c @ CHR ''/'' # r) @ ''.json'')"
        by (simp add: Join_def split: list.splits)
      then show ?thesis by blast
    qed
  next
    case False
    then have "Join [d0, c, r @ ''.json''] = Clean ((d0 @ CHR ''/'' # c @ CHR ''/'' # r) @ ''.json'')"
      by (simp add: Join_def split: list.splits)
    then show ?thesis by blast
  qed
  then obtain a where "Join [d0, c, r @ ''.json''] = Clean (a @ ''.json'')" by blast
  then show ?thesis using namei_json_nonempty[of "a @ ''.json''" a wd] by simp
qed

lemma json_name:
  assumes "r \<noteq> []" "CHR ''/'' \<notin> set r"
  shows "r @ ''.json'' \<noteq> []" "CHR ''/'' \<notin> set (r @ ''.json'')"
    "r @ ''.json'' \<noteq> ''.''" "r @ ''.json'' \<noteq> ''..''"
proof -
  show "r @ ''.json'' \<noteq> []" by simp
  show "CHR ''/'' \<notin> set (r @ ''.json'')" using assms by simp
  have len: "5 \<le> length (r @ ''.json'')" by simp
  show "r @ ''.json'' \<noteq> ''.''"
  proof
    assume "r @ ''.json'' = ''.''"
    then have "length (r @ ''.json'') = length ''.''" by (rule arg_cong)
    with len show False by simp
  qed
  show "r @ ''.json'' \<noteq> ''..''"
  proof
    assume "r @ ''.json'' = ''..''"
    then have "length (r @ ''.json'') = length ''..''" by (rule arg_cong)
    with len show False by simp
  qed
qed

lemma namei_Join_entry:
  assumes "c \<noteq> []" and x: "x \<noteq> []" "CHR ''/'' \<notin> set x" "x \<noteq> ''.''" "x \<noteq> ''..''"
  shows "\<exists>ds. namei wd (Join [d0, c]) = Inr ds \<and>
           namei wd (Join [Join [d0, c], x]) = Inr (ds @ [x])"
proof -
  let ?d = "Join [d0, c]"
  have "\<exists>y. y \<noteq> [] \<and> ?d = Clean y"
    using assms(1) by (cases "d0 = []") (auto simp: Join_def split: list.splits)
  then obtain y where y: "y \<noteq> []" "?d = Clean y" by blast
  have dne: "?d \<noteq> []" using y Clean_nonempty by simp
  have idem: "Clean ?d = ?d" using y Clean_idem by simp
  let ?st = "if hd ?d = CHR ''/'' then [] else rev wd"
  let ?F = "foldl walk ?st (rev (scan ?d))"
  have n1: "namei wd ?d = Inr (rev ?F)"
    using namei_Clean[OF dne, of wd] idem by simp
  let ?z = "?d @ CHR ''/'' # x"
  have zne: "?z \<noteq> []" by simp
  have hz: "hd ?z = hd ?d" using dne by simp
  have "scan ?z = foldl (clean_step (hd ?d = CHR ''/'')) (scan ?d) (split_sep x)"
    using dne by (rule scan_append)
  also have "\<dots> = x # scan ?d"
    using x by (simp add: split_sep_plain clean_step_def)
  finally have sz: "scan ?z = x # scan ?d" .
  have j: "Join [?d, x] = Clean ?z" using dne by (simp add: Join_def split: list.splits)
  have "namei wd (Join [?d, x]) = Inr (rev (foldl walk ?st (rev (x # scan ?d))))"
    unfolding j using namei_Clean[OF zne, of wd] by (simp only: hz sz)
  also have "\<dots> = Inr (rev ?F @ [x])" using x by (simp add: walk_def)
  finally show ?thesis using n1 by blast
qed

subsection \<open>The directory tree\<close>

lemma write_file_lookup: "write_file t cs b = Inr t' \<Longrightarrow> lookup t' cs = Inr (File b)"
  by (induction t cs b arbitrary: t' rule: write_file.induct)
     (auto simp: update_conv' split: option.splits node.splits sum.splits)

lemma mkdir_all_Dir: "mkdir_all t cs = Inr t' \<Longrightarrow> \<exists>es. t' = Dir es"
  by (cases t; cases cs) (auto split: sum.splits)

lemma write_file_Dir: "write_file (Dir es) cs b = Inr t' \<Longrightarrow> cs \<noteq> [] \<and> (\<exists>es'. t' = Dir es')"
  by (cases cs rule: join_sep.cases) (auto split: option.splits node.splits sum.splits)

lemma mkdir_all_idem: "mkdir_all t cs = Inr t' \<Longrightarrow> mkdir_all t' cs = Inr t'"
proof (induction t cs arbitrary: t' rule: mkdir_all.induct)
  case (1 b cs)
  then show ?case by simp
next
  case (2 es)
  then show ?case by auto
next
  case (3 es c cs)
  then show ?case by (auto simp: update_conv' split: sum.splits)
qed

lemma write_file_idem: "write_file t cs b = Inr t' \<Longrightarrow> write_file t' cs b = Inr t'"
  by (induction t cs b arbitrary: t' rule: write_file.induct)
     (auto simp: update_conv' split: option.splits node.splits sum.splits)

lemma mkdir_all_fix_Cons:
  "mkdir_all t (c # cs) = Inr t \<longleftrightarrow>
   (\<exists>es n. t = Dir es \<and> map_of es c = Some n \<and> mkdir_all n cs = Inr n)"
proof
  assume a: "mkdir_all t (c # cs) = Inr t"
  then obtain es where t: "t = Dir es" by (cases t) auto
  with a obtain n' where n': "mkdir_all (case map_of es c of None \<Rightarrow> Dir [] | Some n \<Rightarrow> n) cs = Inr n'"
    and u: "AList.update c n' es = es" by (auto split: sum.splits)
  from u have m: "map_of es c = Some n'" by (metis update_conv' fun_upd_same)
  with n' t show "\<exists>es n. t = Dir es \<and> map_of es c = Some n \<and> mkdir_all n cs = Inr n" by auto
next
  assume "\<exists>es n. t = Dir es \<and> map_of es c = Some n \<and> mkdir_all n cs = Inr n"
  then show "mkdir_all t (c # cs) = Inr t" by (auto simp: update_triv)
qed

lemma write_file_keeps_dirs:
  "mkdir_all t d = Inr t \<Longrightarrow> write_file t p b = Inr t' \<Longrightarrow> mkdir_all t' d = Inr t'"
proof (induction d arbitrary: t p t')
  case Nil
  then obtain es where "t = Dir es" by (cases t) auto
  with Nil obtain es' where "t' = Dir es'" using write_file_Dir by blast
  then show ?case by simp
next
  case (Cons c cs)
  from Cons.prems(1) obtain es n where t: "t = Dir es" and m: "map_of es c = Some n"
    and fx: "mkdir_all n cs = Inr n" unfolding mkdir_all_fix_Cons by blast
  from Cons.prems(2) t have pne: "p \<noteq> []" using write_file_Dir by blast
  then obtain c' ps where p: "p = c' # ps" by (cases p) auto
  show ?case
  proof (cases "c' = c")
    case False
    from Cons.prems(2) t p obtain x where t': "t' = Dir (AList.update c' x es)"
      by (cases ps) (auto split: option.splits node.splits sum.splits)
    from False m have "map_of (AList.update c' x es) c = Some n" by (simp add: update_conv')
    with fx t' show ?thesis unfolding mkdir_all_fix_Cons by blast
  next
    case True
    have nd: "\<exists>sub. n = Dir sub" using fx mkdir_all_Dir by blast
    with Cons.prems(2) t p True m obtain c'' ps' where ps: "ps = c'' # ps'"
      by (cases ps) (auto split: option.splits node.splits sum.splits)
    with Cons.prems(2) t p True m obtain n' where w: "write_file n (c'' # ps') b = Inr n'"
      and t': "t' = Dir (AList.update c n' es)"
      by (auto split: option.splits node.splits sum.splits)
    from Cons.IH[OF fx w] have "mkdir_all n' cs = Inr n'" .
    moreover have "map_of (AList.update c n' es) c = Some n'" by (simp add: update_conv')
    ultimately show ?thesis using t' unfolding mkdir_all_fix_Cons by blast
  qed
qed

lemma mkdir_all_empty: "\<exists>t1. mkdir_all (Dir []) cs = Inr t1"
  by (induction cs) (auto split: sum.splits)

lemma mkdir_all_succeeds: "\<not> file_on_path t cs \<Longrightarrow> \<exists>t1. mkdir_all t cs = Inr t1"
proof (induction t cs rule: mkdir_all.induct)
  case (1 b cs)
  then show ?case by simp
next
  case (2 es)
  then show ?case by simp
next
  case (3 es c cs)
  show ?case
  proof (cases "map_of es c")
    case None
    then show ?thesis using mkdir_all_empty[of cs] by auto
  next
    case (Some n)
    with 3 show ?thesis by auto
  qed
qed

lemma mkdir_all_lookup: "mkdir_all t ds = Inr t1 \<Longrightarrow> \<exists>es. lookup t1 ds = Inr (Dir es)"
  by (induction t ds arbitrary: t1 rule: mkdir_all.induct)
     (auto simp: update_conv' split: sum.splits)

lemma lookup_empty_dir: "cs \<noteq> [] \<Longrightarrow> lookup (Dir []) cs = Inl ENOENT"
  by (cases cs) auto

lemma mkdir_all_below:
  "mkdir_all t ds = Inr t1 \<Longrightarrow> lookup t1 (ds @ [x]) = Inr n \<Longrightarrow> lookup t (ds @ [x]) = Inr n"
proof (induction t ds arbitrary: t1 rule: mkdir_all.induct)
  case (1 b cs)
  then show ?case by simp
next
  case (2 es)
  then show ?case by simp
next
  case (3 es c cs)
  let ?n0 = "case map_of es c of None \<Rightarrow> Dir [] | Some m \<Rightarrow> m"
  from 3(2) obtain n' where m: "mkdir_all ?n0 cs = Inr n'" and t1: "t1 = Dir (AList.update c n' es)"
    by (auto split: sum.splits)
  from 3(3) have "lookup n' (cs @ [x]) = Inr n" by (simp add: t1 update_conv')
  from 3(1)[OF m this] have l0: "lookup ?n0 (cs @ [x]) = Inr n" .
  show ?case
  proof (cases "map_of es c")
    case None
    with l0 show ?thesis by (simp add: lookup_empty_dir)
  next
    case (Some m)
    with l0 show ?thesis by simp
  qed
qed

lemma write_file_into_dir:
  "lookup t ds = Inr (Dir es) \<Longrightarrow> (\<forall>sub. lookup t (ds @ [x]) \<noteq> Inr (Dir sub)) \<Longrightarrow>
   \<exists>t'. write_file t (ds @ [x]) b = Inr t'"
proof (induction ds arbitrary: t)
  case Nil
  then show ?case by (auto split: option.splits node.splits)
next
  case (Cons c cs)
  from Cons.prems(1) obtain es0 m where t: "t = Dir es0" and m: "map_of es0 c = Some m"
    and l: "lookup m cs = Inr (Dir es)"
    by (cases t) (auto split: option.splits)
  from Cons.prems(2) have "\<forall>sub. lookup m (cs @ [x]) \<noteq> Inr (Dir sub)" by (simp add: t m)
  from Cons.IH[OF l this] obtain t' where w: "write_file m (cs @ [x]) b = Inr t'" by blast
  obtain c' cs' where cs': "cs @ [x] = c' # cs'" by (cases "cs @ [x]") auto
  show ?case using w by (simp add: t m cs')
qed

lemma remove_node_ok: "remove_node t cs = Inr t' \<Longrightarrow> lookup t' cs = Inl ENOENT"
proof (induction t cs arbitrary: t' rule: remove_node.induct)
  case (1 n)
  then show ?case by simp
next
  case (2 old c cs)
  then show ?case by simp
next
  case (3 es c)
  then show ?case by (auto simp: delete_conv' split: option.splits node.splits if_splits)
next
  case (4 es c c' cs)
  then show ?case by (auto simp: update_conv' split: option.splits sum.splits)
qed

lemma remove_node_err:
  "remove_node t cs = Inl e \<Longrightarrow> cs \<noteq> [] \<Longrightarrow>
   (\<exists>es. lookup t cs = Inr (Dir es) \<and> es \<noteq> []) \<or> (\<exists>e'. lookup t cs = Inl e')"
proof (induction t cs rule: remove_node.induct)
  case (1 n)
  then show ?case by simp
next
  case (2 old c cs)
  then show ?case by simp
next
  case (3 es c)
  then show ?case by (auto split: option.splits node.splits if_splits)
next
  case (4 es c c' cs)
  then show ?case by (auto split: option.splits sum.splits)
qed

subsection \<open>The calls and the locks\<close>

lemma emit_proj [simp]:
  "drv (emit e w) = drv w" "tree (emit e w) = tree w" "cwd (emit e w) = cwd w"
  "trace (emit e w) = trace w @ [e]"
  by (simp_all add: emit_def)

lemma node_at_cong: "cwd w' = cwd w \<Longrightarrow> tree w' = tree w \<Longrightarrow> node_at w' p = node_at w p"
  by (simp add: node_at_def split: sum.splits)

lemma os_Stat_proj:
  "snd (os_Stat p w) = emit (Syscall ''stat'' p) w"
  "fst (os_Stat p w) =
     (case node_at w p of Inl e \<Rightarrow> Inl (PathError ''stat'' p e)
      | Inr (File b) \<Rightarrow> Inr False | Inr (Dir es) \<Rightarrow> Inr True)"
  by (simp_all add: os_Stat_def Let_def split: sum.splits node.splits)

lemma os_ReadFile_proj:
  "snd (os_ReadFile p w) = emit (Syscall ''open'' p) w"
  "fst (os_ReadFile p w) =
     (case node_at w p of Inl e \<Rightarrow> Inl (PathError ''open'' p e)
      | Inr (File b) \<Rightarrow> Inr b | Inr (Dir es) \<Rightarrow> Inl (PathError ''read'' p EISDIR))"
  by (simp_all add: os_ReadFile_def Let_def split: sum.splits node.splits)

lemma os_ReadDir_proj:
  "snd (os_ReadDir p w) = emit (Syscall ''open'' p) w"
  "fst (os_ReadDir p w) =
     (case node_at w p of Inl e \<Rightarrow> Inl (PathError ''open'' p e)
      | Inr (File b) \<Rightarrow> Inl (PathError ''readdirent'' p ENOTDIR)
      | Inr (Dir es) \<Rightarrow> Inr (sort (map fst es)))"
  by (simp_all add: os_ReadDir_def Let_def split: sum.splits node.splits)

lemma os_MkdirAll_frame:
  "drv (snd (os_MkdirAll p w)) = drv w" "cwd (snd (os_MkdirAll p w)) = cwd w"
  "trace (snd (os_MkdirAll p w)) = trace w @ [Syscall ''mkdir'' p]"
  by (simp_all add: os_MkdirAll_def Let_def split: sum.splits)

lemma os_WriteFile_frame:
  "drv (snd (os_WriteFile p b w)) = drv w" "cwd (snd (os_WriteFile p b w)) = cwd w"
  "trace (snd (os_WriteFile p b w)) = trace w @ [Syscall ''open'' p]"
  by (simp_all add: os_WriteFile_def Let_def split: sum.splits)

lemma os_Remove_frame:
  "drv (snd (os_Remove p w)) = drv w" "cwd (snd (os_Remove p w)) = cwd w"
  "trace (snd (os_Remove p w)) = trace w @ [Syscall ''remove'' p]"
  by (simp_all add: os_Remove_def Let_def split: sum.splits)

lemma os_Remove_proj:
  "fst (os_Remove p w) =
     (case namei (cwd w) p of Inl e \<Rightarrow> Some (PathError ''remove'' p e)
      | Inr cs \<Rightarrow> (case remove_node (tree w) cs of
                     Inl e \<Rightarrow> Some (PathError ''remove'' p e) | Inr t \<Rightarrow> None))"
  "tree (snd (os_Remove p w)) =
     (case namei (cwd w) p of Inl e \<Rightarrow> tree w
      | Inr cs \<Rightarrow> (case remove_node (tree w) cs of Inl e \<Rightarrow> tree w | Inr t \<Rightarrow> t))"
  by (simp_all add: os_Remove_def Let_def split: sum.splits)

lemma Write_locked_frame:
  "drv (snd (Write_locked js c r v w)) = drv w"
  "cwd (snd (Write_locked js c r v w)) = cwd w"
  by (simp_all add: Write_locked_def Let_def split_beta os_MkdirAll_frame os_WriteFile_frame
      split: option.splits sum.splits)

lemma Write_locked_trace:
  "\<exists>evs. trace (snd (Write_locked js c r v w)) = trace w @ evs \<and> list_all is_syscall evs"
  by (simp add: Write_locked_def Let_def split_beta os_MkdirAll_frame os_WriteFile_frame
      split: option.splits sum.splits)

lemma lock_phase:
  "(case getOrCreateMutex c w of
      None \<Rightarrow> None
    | Some (m, w1) \<Rightarrow> (case Mutex_Lock m w1 of None \<Rightarrow> None | Some w2 \<Rightarrow> F m w2)) =
   (if mutex (drv w) \<or> mutexes (drv w) c = Some True then None else F c (acquired c w))"
  by (cases "mutexes (drv w) c")
     (auto simp: getOrCreateMutex_def guard_Lock_def guard_Unlock_def Mutex_Lock_def
        acquired_def emit_def Let_def)

lemma unlock_phase:
  "mutexes (drv w) c = Some True \<Longrightarrow> Mutex_Unlock c w = Some (released c w)"
  by (simp add: Mutex_Unlock_def released_def emit_def)

lemma acquired_proj [simp]:
  "tree (acquired c w) = tree w" "cwd (acquired c w) = cwd w"
  "dir (drv (acquired c w)) = dir (drv w)" "mutex (drv (acquired c w)) = False"
  "mutexes (drv (acquired c w)) = (mutexes (drv w))(c \<mapsto> True)"
  "trace (acquired c w) = trace w @ [GuardLock, GuardUnlock, Lock c]"
  by (simp_all add: acquired_def)

lemma released_proj [simp]:
  "tree (released c w) = tree w" "cwd (released c w) = cwd w"
  "dir (drv (released c w)) = dir (drv w)" "mutex (drv (released c w)) = mutex (drv w)"
  "mutexes (drv (released c w)) = (mutexes (drv w))(c \<mapsto> False)"
  "trace (released c w) = trace w @ [Unlock c]"
  by (simp_all add: released_def)

lemma Write_eq:
  assumes "c \<noteq> []" "r \<noteq> []"
  shows "Write js c r v w =
     (if mutex (drv w) \<or> mutexes (drv w) c = Some True then None
      else Some (fst (Write_locked js c r v (acquired c w)),
                 released c (snd (Write_locked js c r v (acquired c w)))))"
proof -
  have u: "Mutex_Unlock c (snd (Write_locked js c r v (acquired c w))) =
        Some (released c (snd (Write_locked js c r v (acquired c w))))"
    by (rule unlock_phase) (simp add: Write_locked_frame)
  show ?thesis
    using assms unfolding Write_def
    by (simp add: lock_phase split_beta Let_def u)
qed

lemma Delete_eq:
  "Delete c r w =
     (let path = Join [dir (drv w), c, r @ ''.json'']
      in if mutex (drv w) \<or> mutexes (drv w) c = Some True then None
         else Some (fst (os_Remove path (acquired c w)),
                    released c (snd (os_Remove path (acquired c w)))))"
proof -
  have u: "\<And>p. Mutex_Unlock c (snd (os_Remove p (acquired c w))) =
        Some (released c (snd (os_Remove p (acquired c w))))"
    by (rule unlock_phase) (simp add: os_Remove_frame)
  show ?thesis
    unfolding Delete_def
    by (simp add: lock_phase split_beta Let_def u)
qed

subsection \<open>What a call of Write and of Read does\<close>

lemma Write_locked_ok:
  assumes "Write_locked js c r v w = (None, w')"
  shows "\<exists>ds t1 b cs.
     namei (cwd w) (Join [dir (drv w), c]) = Inr ds \<and> mkdir_all (tree w) ds = Inr t1 \<and>
     MarshalIndent js v '''' [CHR 0x09] = Inr b \<and>
     namei (cwd w) (Join [Join [dir (drv w), c], r @ ''.json'']) = Inr cs \<and>
     write_file t1 cs b = Inr (tree w')"
  using assms
  by (auto simp: Write_locked_def os_MkdirAll_def os_WriteFile_def Let_def
      split: sum.splits option.splits prod.splits)

lemma Write_ok:
  assumes "Write js c r v w = Some (None, w')"
  shows "c \<noteq> []" "r \<noteq> []" "\<not> mutex (drv w)" "mutexes (drv w) c \<noteq> Some True"
    "cwd w' = cwd w" "dir (drv w') = dir (drv w)" "\<not> mutex (drv w')"
    "mutexes (drv w') = (mutexes (drv w))(c \<mapsto> False)"
    "\<exists>b cs. MarshalIndent js v '''' [CHR 0x09] = Inr b \<and>
        namei (cwd w) (Join [dir (drv w), c, r @ ''.json'']) = Inr cs \<and>
        cs \<noteq> [] \<and> lookup (tree w') cs = Inr (File b)"
proof -
  show ne: "c \<noteq> []" "r \<noteq> []" using assms by (auto simp: Write_def)
  let ?a = "acquired c w"
  let ?l = "Write_locked js c r v ?a"
  from assms ne have free: "\<not> (mutex (drv w) \<or> mutexes (drv w) c = Some True)"
    and l: "fst ?l = None" and w': "w' = released c (snd ?l)"
    by (auto simp: Write_eq split: if_splits)
  from free show "\<not> mutex (drv w)" "mutexes (drv w) c \<noteq> Some True" by auto
  show "cwd w' = cwd w" "dir (drv w') = dir (drv w)" "\<not> mutex (drv w')"
    "mutexes (drv w') = (mutexes (drv w))(c \<mapsto> False)"
    by (simp_all add: w' Write_locked_frame)
  from l have "?l = (None, snd ?l)" by (simp add: prod_eq_iff)
  from Write_locked_ok[OF this] obtain ds t1 b cs where
    mk: "mkdir_all (tree w) ds = Inr t1" and b: "MarshalIndent js v '''' [CHR 0x09] = Inr b"
    and cs: "namei (cwd w) (Join [Join [dir (drv w), c], r @ ''.json'']) = Inr cs"
    and wr: "write_file t1 cs b = Inr (tree (snd ?l))" by auto
  from mk obtain es where "t1 = Dir es" using mkdir_all_Dir by blast
  with wr have "cs \<noteq> []" using write_file_Dir by blast
  moreover from wr have "lookup (tree w') cs = Inr (File b)"
    by (simp add: w' write_file_lookup)
  ultimately show "\<exists>b cs. MarshalIndent js v '''' [CHR 0x09] = Inr b \<and>
        namei (cwd w) (Join [dir (drv w), c, r @ ''.json'']) = Inr cs \<and>
        cs \<noteq> [] \<and> lookup (tree w') cs = Inr (File b)"
    using b cs by (auto simp: Join_Join)
qed

lemma node_at_frame [simp]:
  "node_at (emit e w) p = node_at w p"
  "node_at (acquired c w) p = node_at w p"
  "node_at (released c w) p = node_at w p"
  by (simp_all add: node_at_def split: sum.splits)

lemma Read_file:
  assumes "node_at w (Join [dir (drv w), c, r @ ''.json'']) = Inr (File b)"
  shows "Read js c r dst w =
    (Unmarshal js b dst,
     emit (Syscall ''open'' (Join [dir (drv w), c, r @ ''.json'']))
       (emit (Syscall ''stat'' (Join [dir (drv w), c, r @ ''.json''])) w))"
proof -
  let ?p = "Join [dir (drv w), c, r @ ''.json'']"
  show ?thesis
    using assms by (simp add: Read_def Let_def split_beta os_Stat_proj os_ReadFile_proj)
qed

lemma Read_absent:
  assumes "node_at w (Join [dir (drv w), c, r @ ''.json'']) = Inl e"
  shows "Read js c r dst w =
    ((Some (PathError ''stat'' (Join [dir (drv w), c, r @ ''.json'']) e), dst),
     emit (Syscall ''stat'' (Join [dir (drv w), c, r @ ''.json''])) w)"
  using assms by (simp add: Read_def Let_def split_beta os_Stat_proj)

lemma lookup_errno: "lookup t cs = Inl e \<Longrightarrow> e = ENOENT \<or> e = ENOTDIR"
  by (induction t cs rule: lookup.induct) (auto split: option.splits)

lemma node_at_errno: "node_at w p = Inl e \<Longrightarrow> e = ENOENT \<or> e = ENOTDIR"
  by (auto simp: node_at_def namei_def dest: lookup_errno split: sum.splits if_splits)

subsection \<open>Writing twice\<close>

lemma Write_locked_fs:
  "(fst (Write_locked js c r v w), tree (snd (Write_locked js c r v w))) =
   write_fs js (cwd w) (dir (drv w)) c r v (tree w)"
  by (simp add: Write_locked_def write_fs_def os_MkdirAll_def os_WriteFile_def Let_def
      split: sum.splits option.splits prod.splits)

lemma write_fs_idem:
  assumes "write_fs js wd d0 c r v t = (e, t')"
  shows "write_fs js wd d0 c r v t' = (e, t')"
proof -
  let ?d = "Join [d0, c]"
  let ?p = "Join [?d, r @ ''.json'']"
  show ?thesis
  proof (cases "namei wd ?d")
    case (Inl x)
    with assms show ?thesis by (simp add: write_fs_def Let_def)
  next
    case ds: (Inr ds)
    show ?thesis
    proof (cases "mkdir_all t ds")
      case (Inl x)
      with assms ds show ?thesis by (simp add: write_fs_def Let_def)
    next
      case t1: (Inr t1)
      have t1': "mkdir_all t1 ds = Inr t1" using t1 by (rule mkdir_all_idem)
      show ?thesis
      proof (cases "MarshalIndent js v '''' [CHR 0x09]")
        case (Inl x)
        with assms ds t1 t1' show ?thesis by (auto simp: write_fs_def Let_def)
      next
        case b: (Inr b)
        show ?thesis
        proof (cases "namei wd ?p")
          case (Inl x)
          with assms ds t1 t1' b show ?thesis by (auto simp: write_fs_def Let_def)
        next
          case cs: (Inr cs)
          show ?thesis
          proof (cases "write_file t1 cs b")
            case (Inl x)
            with assms ds t1 t1' b cs show ?thesis by (auto simp: write_fs_def Let_def)
          next
            case t2: (Inr t2)
            have "mkdir_all t2 ds = Inr t2" using t1' t2 by (rule write_file_keeps_dirs)
            moreover have "write_file t2 cs b = Inr t2" using t2 by (rule write_file_idem)
            ultimately show ?thesis
              using assms ds t1 b cs t2 by (auto simp: write_fs_def Let_def)
          qed
        qed
      qed
    qed
  qed
qed

subsection \<open>A write that succeeds, and the read after it\<close>

lemma Read_after_Write:
  assumes "Write js c r v w = Some (None, w')"
    and "MarshalIndent js v '''' [CHR 0x09] = Inr b"
    and "Unmarshal js b dst = (None, v)"
  shows "fst (Read js c r dst w') = (None, v)"
proof -
  from Write_ok[OF assms(1)] obtain b' cs where
    b': "MarshalIndent js v '''' [CHR 0x09] = Inr b'"
    and cs: "namei (cwd w) (Join [dir (drv w), c, r @ ''.json'']) = Inr cs"
    and f: "lookup (tree w') cs = Inr (File b')"
    and fr: "cwd w' = cwd w" "dir (drv w') = dir (drv w)" by auto
  from b' assms(2) have "b' = b" by simp
  with cs f fr have "node_at w' (Join [dir (drv w'), c, r @ ''.json'']) = Inr (File b)"
    by (simp add: node_at_def)
  then show ?thesis using assms(3) by (simp add: Read_file)
qed

lemma Write_succeeds:
  assumes ne: "c \<noteq> ''''" "r \<noteq> ''''" and sep: "CHR ''/'' \<notin> set r"
    and free: "\<not> mutex (drv w)" "mutexes (drv w) c \<noteq> Some True"
    and nf: "\<not> blocked_by_file w (Join [dir (drv w), c])"
    and nd: "\<forall>es. node_at w (Join [dir (drv w), c, r @ ''.json'']) \<noteq> Inr (Dir es)"
    and enc: "MarshalIndent js v '''' [CHR 0x09] = Inr b"
  shows "\<exists>w'. Write js c r v w = Some (None, w')"
proof -
  let ?d = "Join [dir (drv w), c]"
  let ?x = "r @ ''.json''"
  let ?p = "Join [?d, ?x]"
  from namei_Join_entry[OF ne(1) json_name[OF ne(2) sep], of "cwd w" "dir (drv w)"]
  obtain ds where d: "namei (cwd w) ?d = Inr ds" and p: "namei (cwd w) ?p = Inr (ds @ [?x])"
    by blast
  from nf d have "\<not> file_on_path (tree w) ds" by (simp add: blocked_by_file_def)
  then obtain t1 where t1: "mkdir_all (tree w) ds = Inr t1" using mkdir_all_succeeds by blast
  then obtain es1 where l1: "lookup t1 ds = Inr (Dir es1)" using mkdir_all_lookup by blast
  from nd p have "\<forall>es. lookup (tree w) (ds @ [?x]) \<noteq> Inr (Dir es)"
    by (simp add: node_at_def Join_Join[symmetric])
  then have "\<forall>sub. lookup t1 (ds @ [?x]) \<noteq> Inr (Dir sub)"
    using mkdir_all_below[OF t1] by blast
  from write_file_into_dir[OF l1 this] obtain t2 where
    t2: "write_file t1 (ds @ [?x]) b = Inr t2" by blast
  have "write_fs js (cwd w) (dir (drv w)) c r v (tree w) = (None, t2)"
    by (simp add: write_fs_def Let_def d p t1 enc t2)
  then have "fst (Write_locked js c r v (acquired c w)) = None"
    using Write_locked_fs[of js c r v "acquired c w"] by simp
  then show ?thesis using ne free by (simp add: Write_eq)
qed

subsection \<open>The loop of ReadAll, and a returning Write\<close>

lemma read_entry_emit [simp]: "read_entry (emit e w) d n = read_entry w d n"
  by (simp add: read_entry_def os_ReadFile_proj)

lemma ReadAll_loop_find:
  "fst (ReadAll_loop d names acc w) =
     (case find (\<lambda>n. isl (read_entry w d n)) names of
        Some n \<Rightarrow> Inl (projl (read_entry w d n))
      | None \<Rightarrow> Inr (acc @ map (\<lambda>n. projr (read_entry w d n)) names))"
proof (induction names arbitrary: acc w)
  case Nil
  then show ?case by simp
next
  case (Cons n names)
  let ?w1 = "emit (Syscall ''open'' (Join [d, n])) w"
  have step: "ReadAll_loop d (n # names) acc w =
      (case read_entry w d n of
         Inl err \<Rightarrow> (Inl err, ?w1)
       | Inr b \<Rightarrow> ReadAll_loop d names (acc @ [b]) ?w1)"
    by (simp add: split_beta read_entry_def os_ReadFile_proj(1))
  show ?case
  proof (cases "read_entry w d n")
    case (Inl err)
    then show ?thesis by (simp add: step del: ReadAll_loop.simps)
  next
    case (Inr b)
    have "fst (ReadAll_loop d names (acc @ [b]) ?w1) =
       (case find (\<lambda>n. isl (read_entry w d n)) names of
          Some n \<Rightarrow> Inl (projl (read_entry w d n))
        | None \<Rightarrow> Inr ((acc @ [b]) @ map (\<lambda>n. projr (read_entry w d n)) names))"
      using Cons.IH[of "acc @ [b]" ?w1] by (simp cong: option.case_cong)
    with Inr show ?thesis
      by (simp add: step del: ReadAll_loop.simps split: option.splits)
  qed
qed

lemma Write_returns:
  assumes "Write js c r v w = Some (e, w')"
  shows "(c = [] \<or> r = []) \<and> w' = w \<or>
     c \<noteq> [] \<and> r \<noteq> [] \<and> \<not> mutex (drv w) \<and> mutexes (drv w) c \<noteq> Some True \<and>
     w' = released c (snd (Write_locked js c r v (acquired c w)))"
proof (cases "c = [] \<or> r = []")
  case True
  with assms show ?thesis by (auto simp: Write_def)
next
  case False
  with assms show ?thesis by (auto simp: Write_eq split: if_splits)
qed

subsection \<open>Evaluation on concrete inputs\<close>

lemmas run_defs =
  Write_def Delete_def Read_def ReadAll_def New_def Write_locked_def getOrCreateMutex_def
  guard_Lock_def guard_Unlock_def Mutex_Lock_def Mutex_Unlock_def
  os_Stat_def os_MkdirAll_def os_WriteFile_def os_ReadFile_def os_ReadDir_def os_Remove_def
  node_at_def namei_def walk_def Join_def Clean_def clean_step_def emit_def Let_def
  store_def fresh_def boot_def bool_json_def json_space_def

lemma New_fresh: "New ''./data'' boot = (None, fresh)"
  by (simp add: run_defs)

section \<open>The claims\<close>

subsection \<open>C1: a write followed by a read\<close>

text \<open>
  Claim C1, as the code has it. Take a non-empty collection name, a non-empty
  resource id without a path separator, and a value whose encoding decodes back
  to it. In every world where the guard and the collection's mutex are free, no
  regular file stands on the path of the collection's directory, and the
  record's path is not a directory, \<^verbatim>\<open>Write\<close> returns no error and the
  \<^verbatim>\<open>Read\<close> of the same key after it returns no error and leaves the value in
  the destination.
\<close>

theorem Write_Read_roundtrip:
  assumes "c \<noteq> ''''" "r \<noteq> ''''" and "CHR ''/'' \<notin> set r"
    and "\<not> mutex (drv w)" "mutexes (drv w) c \<noteq> Some True"
    and "\<not> blocked_by_file w (Join [dir (drv w), c])"
    and "\<forall>es. node_at w (Join [dir (drv w), c, r @ ''.json'']) \<noteq> Inr (Dir es)"
    and "MarshalIndent js v '''' [CHR 0x09] = Inr b"
    and "Unmarshal js b dst = (None, v)"
  shows "\<exists>w'. Write js c r v w = Some (None, w') \<and> fst (Read js c r dst w') = (None, v)"
proof -
  from Write_succeeds[OF assms(1-8)] obtain w' where
    w: "Write js c r v w = Some (None, w')" by blast
  from Read_after_Write[OF w assms(8,9)] w show ?thesis by blast
qed

theorem Write_Read_roundtrip_witness:
  "''users'' \<noteq> '''' \<and> ''a'' \<noteq> '''' \<and> CHR ''/'' \<notin> set ''a'' \<and>
   mutex (drv fresh) = False \<and> mutexes (drv fresh) ''users'' = None \<and>
   blocked_by_file fresh ''data/users'' = False \<and>
   node_at fresh ''data/users/a.json'' = Inl ENOENT \<and>
   MarshalIndent bool_json True '''' [CHR 0x09] = Inr ''true'' \<and>
   Unmarshal bool_json ''true'' False = (None, True) \<and>
   Write bool_json ''users'' ''a'' True fresh = Some (None, fresh_a) \<and>
   fst (Read bool_json ''users'' ''a'' False fresh_a) = (None, True)"
proof -
  have p: "Join [dir (drv fresh), ''users''] = ''data/users''"
    "Join [dir (drv fresh), ''users'', ''a'' @ ''.json''] = ''data/users/a.json''"
    by (simp_all add: run_defs)
  have h1: "''users'' \<noteq> ''''" "''a'' \<noteq> ''''" "CHR ''/'' \<notin> set ''a''" by simp_all
  have h2: "\<not> mutex (drv fresh)" "mutexes (drv fresh) ''users'' \<noteq> Some True"
    "mutexes (drv fresh) ''users'' = None"
    by (simp_all add: fresh_def store_def)
  have h3: "\<not> blocked_by_file fresh ''data/users''"
    by (simp add: blocked_by_file_def run_defs)
  have h4: "node_at fresh ''data/users/a.json'' = Inl ENOENT"
    by (simp add: run_defs)
  then have h4': "\<forall>es. node_at fresh ''data/users/a.json'' \<noteq> Inr (Dir es)" by simp
  have h5: "MarshalIndent bool_json True '''' [CHR 0x09] = Inr ''true''"
    by (simp add: bool_json_def)
  have h6: "Unmarshal bool_json ''true'' False = (None, True)"
    by (simp add: bool_json_def json_space_def)
  have w: "Write bool_json ''users'' ''a'' True fresh = Some (None, fresh_a)"
    by (simp add: run_defs fresh_a_def)
  from Write_Read_roundtrip[of "''users''" "''a''" fresh bool_json True "''true''" False,
      unfolded p, OF h1 h2(1,2) h3 h4' h5 h6] w
  have "fst (Read bool_json ''users'' ''a'' False fresh_a) = (None, True)" by auto
  with h1 h2 h3 h4 h5 h6 w show ?thesis by simp
qed

text \<open>
  As stated, for every non-empty collection and resource, the claim fails in
  three ways. On the fresh store \<^verbatim>\<open>Write("users", "a/b", true)\<close> creates
  \<^verbatim>\<open>data/users\<close> only, so \<^verbatim>\<open>os.WriteFile\<close> fails for want of \<^verbatim>\<open>data/users/a\<close>,
  and the read that follows fails too and leaves the destination as it was.
  Where the regular file \<^verbatim>\<open>data/users/a.json\<close> stands on the collection's
  path, \<^verbatim>\<open>os.MkdirAll\<close> fails; where the record's path is a directory,
  \<^verbatim>\<open>os.WriteFile\<close> fails.
\<close>

theorem Write_Read_roundtrip_counterexample:
  "Write bool_json ''users'' ''a/b'' True fresh =
     Some (Some (PathError ''open'' ''data/users/a/b.json'' ENOENT), fresh_ab) \<and>
   fst (Read bool_json ''users'' ''a/b'' False fresh_ab) =
     (Some (PathError ''stat'' ''data/users/a/b.json'' ENOENT), False) \<and>
   map_option fst (Write bool_json ''users/a.json'' ''x'' True fresh_a) =
     Some (Some (PathError ''mkdir'' ''data/users/a.json'' ENOTDIR)) \<and>
   map_option fst (Write bool_json ''users'' ''x'' True nested) =
     Some (Some (PathError ''open'' ''data/users/x.json'' EISDIR))"
  by (simp add: run_defs fresh_a_def fresh_ab_def nested_def nested_evs_def nested_entries_def)

subsection \<open>C2: the check of the names in Write\<close>

text \<open>
  Claim C2. With an empty collection name, and with an empty resource id,
  \<^verbatim>\<open>Write\<close> returns the error "missing collection or resource" and the world it
  was called in: the log has no new event, so no system call was made and no
  mutex was touched, and the directory tree is the same, so nothing was created.
\<close>

theorem Write_validation_gate:
  "Write js '''' r v w = Some (Some (ErrorString ''missing collection or resource''), w) \<and>
   Write js c '''' v w = Some (Some (ErrorString ''missing collection or resource''), w)"
  by (simp add: Write_def)

theorem Write_validation_gate_witness:
  "Write bool_json '''' ''x'' True fresh =
     Some (Some (ErrorString ''missing collection or resource''), fresh) \<and>
   Write bool_json ''c'' '''' True fresh =
     Some (Some (ErrorString ''missing collection or resource''), fresh)"
  using Write_validation_gate[of bool_json "''x''" True fresh "''c''"] by simp

subsection \<open>C3: no check of the names in Delete\<close>

text \<open>
  Claim C3 says that \<^verbatim>\<open>Delete\<close> rejects an empty collection name or resource id
  before any access to the file system. The code of \<^verbatim>\<open>Delete\<close> has no such check.
  On the store where \<^verbatim>\<open>Write(".", "x", true)\<close> has put \<^verbatim>\<open>data/x.json\<close>,
  \<^verbatim>\<open>Delete("", "x")\<close> takes the mutex of the collection \<^verbatim>\<open>""\<close>, removes that file
  and returns no error; on the fresh store it calls \<^verbatim>\<open>os.Remove\<close> all the same and
  returns its error.
\<close>

theorem Delete_empty_collection:
  "Write bool_json ''.'' ''x'' True fresh = Some (None, stray) \<and>
   tree stray = Dir [(''data'', Dir [(''x.json'', File ''true'')])] \<and>
   Delete '''' ''x'' stray = Some (None, stray_gone) \<and>
   tree stray_gone = Dir [(''data'', Dir [])] \<and>
   Delete '''' ''x'' fresh =
     Some (Some (PathError ''remove'' ''data/x.json'' ENOENT),
           store ['''' \<mapsto> False] []
             [GuardLock, GuardUnlock, Lock '''', Syscall ''remove'' ''data/x.json'', Unlock ''''])"
  by (simp add: run_defs stray_def stray_gone_def)

subsection \<open>C4: the same write twice\<close>

text \<open>
  Claim C4. When \<^verbatim>\<open>Write(c, r, v)\<close> has returned, with an error or without,
  the same call once more returns the same and leaves the whole directory tree,
  hence the record file, as the first call left it.
\<close>

theorem Write_twice:
  assumes "Write js c r v w = Some (e, w1)"
  shows "\<exists>w2. Write js c r v w1 = Some (e, w2) \<and> tree w2 = tree w1 \<and>
           node_at w2 (Join [Join [dir (drv w), c], r @ ''.json'']) =
           node_at w1 (Join [Join [dir (drv w), c], r @ ''.json''])"
proof (cases "c = [] \<or> r = []")
  case True
  with assms have "w1 = w" and "Write js c r v w1 = Some (e, w1)"
    by (auto simp: Write_def)
  then show ?thesis by blast
next
  case False
  then have ne: "c \<noteq> []" "r \<noteq> []" by auto
  let ?l = "Write_locked js c r v (acquired c w)"
  from assms ne have free: "\<not> mutex (drv w)" "mutexes (drv w) c \<noteq> Some True"
    and e: "e = fst ?l" and w1: "w1 = released c (snd ?l)"
    by (auto simp: Write_eq split: if_splits)
  have fr: "cwd w1 = cwd w" "dir (drv w1) = dir (drv w)" "\<not> mutex (drv w1)"
    "mutexes (drv w1) c = Some False"
    by (simp_all add: w1 Write_locked_frame)
  let ?l' = "Write_locked js c r v (acquired c w1)"
  have "write_fs js (cwd w) (dir (drv w)) c r v (tree w) = (e, tree w1)"
    using Write_locked_fs[of js c r v "acquired c w"] by (simp add: e w1)
  then have "write_fs js (cwd w) (dir (drv w)) c r v (tree w1) = (e, tree w1)"
    by (rule write_fs_idem)
  then have l': "fst ?l' = e" "tree (snd ?l') = tree w1"
    using Write_locked_fs[of js c r v "acquired c w1"] fr by simp_all
  have "Write js c r v w1 = Some (e, released c (snd ?l'))"
    using ne fr l' by (simp add: Write_eq)
  moreover have "tree (released c (snd ?l')) = tree w1" using l' by simp
  moreover have "node_at (released c (snd ?l')) p = node_at w1 p" for p
    by (rule node_at_cong) (simp_all add: Write_locked_frame l')
  ultimately show ?thesis by blast
qed

theorem Write_twice_witness:
  "Write bool_json ''users'' ''a'' True fresh = Some (None, fresh_a) \<and>
   (\<exists>w2. Write bool_json ''users'' ''a'' True fresh_a = Some (None, w2) \<and>
      tree w2 = tree fresh_a \<and>
      node_at w2 ''data/users/a.json'' = node_at fresh_a ''data/users/a.json'')"
proof -
  have h: "Write bool_json ''users'' ''a'' True fresh = Some (None, fresh_a)"
    by (simp add: run_defs fresh_a_def)
  have p: "Join [Join [dir (drv fresh), ''users''], ''a'' @ ''.json''] = ''data/users/a.json''"
    by (simp add: run_defs)
  from Write_twice[OF h] h show ?thesis unfolding p by simp
qed

subsection \<open>C5: a write, a delete, a read\<close>

text \<open>
  Claim C5, as the code has it. For non-empty names, with the guard and the
  collection's mutex free, \<^verbatim>\<open>Write\<close> returns, with an error or without. Unless
  the record's path is then a directory that is not empty, the
  \<^verbatim>\<open>Delete\<close> of the same key returns, and the \<^verbatim>\<open>Read\<close> after it returns a
  not-found error and leaves the destination as it was.
\<close>

theorem Write_Delete_Read:
  assumes "c \<noteq> ''''" "r \<noteq> ''''"
    and "\<not> mutex (drv w)" "mutexes (drv w) c \<noteq> Some True"
  shows "\<exists>e1 w1. Write js c r v w = Some (e1, w1) \<and>
           ((\<forall>es. node_at w1 (Join [dir (drv w), c, r @ ''.json'']) = Inr (Dir es) \<longrightarrow> es = []) \<longrightarrow>
            (\<exists>e2 w2 err. Delete c r w1 = Some (e2, w2) \<and>
               fst (Read js c r dst w2) = (Some err, dst) \<and> NotFoundError err))"
proof -
  let ?p = "Join [dir (drv w), c, r @ ''.json'']"
  let ?l = "Write_locked js c r v (acquired c w)"
  let ?w1 = "released c (snd ?l)"
  have wr: "Write js c r v w = Some (fst ?l, ?w1)"
    using assms by (simp add: Write_eq)
  have fr: "cwd ?w1 = cwd w" "dir (drv ?w1) = dir (drv w)" "\<not> mutex (drv ?w1)"
    "mutexes (drv ?w1) c = Some False"
    by (simp_all add: Write_locked_frame)
  let ?rm = "os_Remove ?p (acquired c ?w1)"
  let ?w2 = "released c (snd ?rm)"
  have del: "Delete c r ?w1 = Some (fst ?rm, ?w2)"
    using fr by (simp add: Delete_eq Let_def)
  obtain cs where cs: "namei (cwd w) ?p = Inr cs" and ne: "cs \<noteq> []"
    using record_path_resolves[of "cwd w" "dir (drv w)" c r] by blast
  have fr2: "cwd ?w2 = cwd w" "dir (drv ?w2) = dir (drv w)"
    using fr by (simp_all add: os_Remove_frame)
  have t2: "tree (snd ?rm) =
      (case remove_node (tree (snd ?l)) cs of Inl e \<Rightarrow> tree (snd ?l) | Inr t \<Rightarrow> t)"
    using fr cs by (simp add: os_Remove_proj split: sum.splits)
  have n2: "node_at ?w2 ?p = lookup (tree (snd ?rm)) cs"
    using cs fr2 by (simp add: node_at_def)
  have n1: "node_at ?w1 ?p = lookup (tree (snd ?l)) cs"
    using cs fr by (simp add: node_at_def)
  have "\<exists>err. fst (Read js c r dst ?w2) = (Some err, dst) \<and> NotFoundError err"
    if nd: "\<forall>es. node_at ?w1 ?p = Inr (Dir es) \<longrightarrow> es = []"
  proof -
    have "\<exists>e. lookup (tree (snd ?rm)) cs = Inl e"
    proof (cases "remove_node (tree (snd ?l)) cs")
      case (Inr t')
      then have "lookup t' cs = Inl ENOENT" by (rule remove_node_ok)
      with Inr show ?thesis by (simp add: t2)
    next
      case (Inl e)
      from remove_node_err[OF Inl ne] nd obtain e' where "lookup (tree (snd ?l)) cs = Inl e'"
        unfolding n1 by auto
      with Inl show ?thesis by (simp add: t2)
    qed
    then have "\<exists>e. node_at ?w2 ?p = Inl e" unfolding n2 .
    then obtain e where e: "node_at ?w2 ?p = Inl e" by blast
    then have "node_at ?w2 (Join [dir (drv ?w2), c, r @ ''.json'']) = Inl e"
      using fr2 by simp
    from Read_absent[where js = js and dst = dst, OF this]
    have "fst (Read js c r dst ?w2) = (Some (PathError ''stat'' ?p e), dst)"
      using fr2 by simp
    moreover have "NotFoundError (PathError ''stat'' ?p e)"
      using node_at_errno[OF e] by auto
    ultimately show ?thesis by blast
  qed
  with wr del show ?thesis by blast
qed

theorem Write_Delete_Read_witness:
  "''users'' \<noteq> '''' \<and> ''a'' \<noteq> '''' \<and> ''a/b'' \<noteq> '''' \<and>
   mutex (drv fresh) = False \<and> mutexes (drv fresh) ''users'' = None \<and>
   Write bool_json ''users'' ''a'' True fresh = Some (None, fresh_a) \<and>
   node_at fresh_a ''data/users/a.json'' = Inr (File ''true'') \<and>
   (\<exists>e2 w2 err. Delete ''users'' ''a'' fresh_a = Some (e2, w2) \<and>
      fst (Read bool_json ''users'' ''a'' False w2) = (Some err, False) \<and>
      NotFoundError err) \<and>
   Write bool_json ''users'' ''a/b'' True fresh =
     Some (Some (PathError ''open'' ''data/users/a/b.json'' ENOENT), fresh_ab) \<and>
   node_at fresh_ab ''data/users/a/b.json'' = Inl ENOENT \<and>
   (\<exists>e2 w2 err. Delete ''users'' ''a/b'' fresh_ab = Some (e2, w2) \<and>
      fst (Read bool_json ''users'' ''a/b'' False w2) = (Some err, False) \<and>
      NotFoundError err)"
proof -
  have p: "Join [dir (drv fresh), ''users'', ''a'' @ ''.json''] = ''data/users/a.json''"
    "Join [dir (drv fresh), ''users'', ''a/b'' @ ''.json''] = ''data/users/a/b.json''"
    by (simp_all add: run_defs)
  have h1: "''users'' \<noteq> ''''" "''a'' \<noteq> ''''" "''a/b'' \<noteq> ''''" by simp_all
  have h2: "\<not> mutex (drv fresh)" "mutexes (drv fresh) ''users'' \<noteq> Some True"
    "mutexes (drv fresh) ''users'' = None"
    by (simp_all add: fresh_def store_def)
  have w1: "Write bool_json ''users'' ''a'' True fresh = Some (None, fresh_a)"
    by (simp add: run_defs fresh_a_def)
  have n1: "node_at fresh_a ''data/users/a.json'' = Inr (File ''true'')"
    by (simp add: run_defs fresh_a_def)
  have w2: "Write bool_json ''users'' ''a/b'' True fresh =
     Some (Some (PathError ''open'' ''data/users/a/b.json'' ENOENT), fresh_ab)"
    by (simp add: run_defs fresh_ab_def)
  have n2: "node_at fresh_ab ''data/users/a/b.json'' = Inl ENOENT"
    by (simp add: run_defs fresh_ab_def)
  from Write_Delete_Read[of "''users''" "''a''" fresh bool_json True False,
      unfolded p, OF h1(1,2) h2(1,2)] w1 n1
  have c1: "\<exists>e2 w2 err. Delete ''users'' ''a'' fresh_a = Some (e2, w2) \<and>
      fst (Read bool_json ''users'' ''a'' False w2) = (Some err, False) \<and>
      NotFoundError err" by auto
  from Write_Delete_Read[of "''users''" "''a/b''" fresh bool_json True False,
      unfolded p, OF h1(1,3) h2(1,2)] w2 n2
  have c2: "\<exists>e2 w2 err. Delete ''users'' ''a/b'' fresh_ab = Some (e2, w2) \<and>
      fst (Read bool_json ''users'' ''a/b'' False w2) = (Some err, False) \<and>
      NotFoundError err" by auto
  from h1 h2 w1 n1 c1 w2 n2 c2 show ?thesis by simp
qed

text \<open>
  As stated, for every non-empty collection and resource, the claim fails where
  the record's path is a directory that is not empty, which
  \<^verbatim>\<open>Write("users/x.json", "y", true)\<close> brings about on the fresh store: then
  \<^verbatim>\<open>Write("users", "x", true)\<close> and \<^verbatim>\<open>Delete("users", "x")\<close> fail, the existence
  check of \<^verbatim>\<open>Read\<close> succeeds, and \<^verbatim>\<open>Read\<close> returns the error of reading a
  directory.
\<close>

theorem Write_Delete_Read_counterexample:
  "Write bool_json ''users/x.json'' ''y'' True fresh = Some (None, nested) \<and>
   Write bool_json ''users'' ''x'' True nested =
     Some (Some (PathError ''open'' ''data/users/x.json'' EISDIR), nested_w) \<and>
   Delete ''users'' ''x'' nested_w =
     Some (Some (PathError ''remove'' ''data/users/x.json'' ENOTEMPTY), nested_wd) \<and>
   fst (Read bool_json ''users'' ''x'' False nested_wd) =
     (Some (PathError ''read'' ''data/users/x.json'' EISDIR), False) \<and>
   \<not> NotFoundError (PathError ''read'' ''data/users/x.json'' EISDIR)"
  by (simp add: run_defs nested_def nested_w_def nested_wd_def nested_evs_def
      nested_entries_def)

subsection \<open>C6: the errors of Read\<close>

text \<open>
  Claim C6. Where nothing is at the record's path, \<^verbatim>\<open>Read\<close> returns the
  not-found error of \<^verbatim>\<open>os.Stat\<close>, leaves the destination as it was, and its
  only event is that call: no mutex is looked up or taken. Where the path is a
  regular file whose bytes \<^verbatim>\<open>Unmarshal\<close> rejects, \<^verbatim>\<open>Read\<close> returns the error of
  \<^verbatim>\<open>Unmarshal\<close>, again after system calls only.
\<close>

theorem Read_errors:
  "(node_at w (Join [dir (drv w), c, r @ ''.json'']) = Inl e \<longrightarrow>
      Read js c r dst w =
        ((Some (PathError ''stat'' (Join [dir (drv w), c, r @ ''.json'']) e), dst),
         emit (Syscall ''stat'' (Join [dir (drv w), c, r @ ''.json''])) w) \<and>
      NotFoundError (PathError ''stat'' (Join [dir (drv w), c, r @ ''.json'']) e)) \<and>
   (node_at w (Join [dir (drv w), c, r @ ''.json'']) = Inr (File b) \<and>
    Unmarshal js b dst = (Some err, dst') \<longrightarrow>
      Read js c r dst w =
        ((Some err, dst'),
         emit (Syscall ''open'' (Join [dir (drv w), c, r @ ''.json'']))
           (emit (Syscall ''stat'' (Join [dir (drv w), c, r @ ''.json''])) w)))"
  using node_at_errno[of w "Join [dir (drv w), c, r @ ''.json'']" e]
  by (auto simp: Read_absent Read_file)

theorem Read_errors_witness:
  "node_at fresh_a ''data/users/zz.json'' = Inl ENOENT \<and>
   Read bool_json ''users'' ''zz'' False fresh_a =
     ((Some (PathError ''stat'' ''data/users/zz.json'' ENOENT), False),
      emit (Syscall ''stat'' ''data/users/zz.json'') fresh_a) \<and>
   NotFoundError (PathError ''stat'' ''data/users/zz.json'' ENOENT) \<and>
   node_at garbled ''data/users/a.json'' = Inr (File ''tru'') \<and>
   Unmarshal bool_json ''tru'' False =
     (Some (JSONError ''cannot unmarshal into Go value of type bool''), False) \<and>
   Read bool_json ''users'' ''a'' False garbled =
     ((Some (JSONError ''cannot unmarshal into Go value of type bool''), False),
      emit (Syscall ''open'' ''data/users/a.json'')
        (emit (Syscall ''stat'' ''data/users/a.json'') garbled))"
proof -
  have p: "Join [dir (drv fresh_a), ''users'', ''zz'' @ ''.json''] = ''data/users/zz.json''"
    "Join [dir (drv garbled), ''users'', ''a'' @ ''.json''] = ''data/users/a.json''"
    by (simp_all add: run_defs fresh_a_def garbled_def)
  have h1: "node_at fresh_a ''data/users/zz.json'' = Inl ENOENT"
    by (simp add: run_defs fresh_a_def)
  have h2: "node_at garbled ''data/users/a.json'' = Inr (File ''tru'')"
    by (simp add: run_defs garbled_def)
  have h3: "Unmarshal bool_json ''tru'' False =
     (Some (JSONError ''cannot unmarshal into Go value of type bool''), False)"
    by (simp add: bool_json_def json_space_def)
  show ?thesis
    using Read_errors[of fresh_a "''users''" "''zz''" ENOENT bool_json False, unfolded p]
      Read_errors[of garbled "''users''" "''a''" _ bool_json False "''tru''"
        "JSONError ''cannot unmarshal into Go value of type bool''" False, unfolded p]
      h1 h2 h3
    by simp
qed

subsection \<open>C7: the results of ReadAll\<close>

text \<open>
  Claim C7. Where nothing is at the collection's path, \<^verbatim>\<open>ReadAll\<close> returns the
  not-found error of \<^verbatim>\<open>os.Stat\<close>. Where the path is a directory, \<^verbatim>\<open>ReadAll\<close>
  returns the error of the first entry, in the order of \<^verbatim>\<open>os.ReadDir\<close>, that
  cannot be read, and when every entry can be read it returns the contents of
  each entry, one payload per entry in that order.
\<close>

theorem ReadAll_results:
  "(node_at w (Join [dir (drv w), c]) = Inl e \<longrightarrow>
      fst (ReadAll c w) = Inl (PathError ''stat'' (Join [dir (drv w), c]) e) \<and>
      NotFoundError (PathError ''stat'' (Join [dir (drv w), c]) e)) \<and>
   (node_at w (Join [dir (drv w), c]) = Inr (Dir es) \<longrightarrow>
      fst (ReadAll c w) =
        (case find (\<lambda>n. isl (read_entry w (Join [dir (drv w), c]) n)) (sort (map fst es)) of
           Some n \<Rightarrow> Inl (projl (read_entry w (Join [dir (drv w), c]) n))
         | None \<Rightarrow>
             Inr (map (\<lambda>n. projr (read_entry w (Join [dir (drv w), c]) n))
                    (sort (map fst es)))))"
  using node_at_errno[of w "Join [dir (drv w), c]" e]
  by (auto simp: ReadAll_def Let_def split_beta os_Stat_proj os_ReadDir_proj ReadAll_loop_find
      cong: option.case_cong)

theorem ReadAll_results_witness:
  "node_at fresh ''data/nope'' = Inl ENOENT \<and>
   fst (ReadAll ''nope'' fresh) = Inl (PathError ''stat'' ''data/nope'' ENOENT) \<and>
   node_at only_sub ''data/users'' = Inr (Dir [(''sub'', Dir [])]) \<and>
   fst (ReadAll ''users'' only_sub) = Inl (PathError ''read'' ''data/users/sub'' EISDIR) \<and>
   node_at fresh_a ''data/users'' = Inr (Dir [(''a.json'', File ''true'')]) \<and>
   fst (ReadAll ''users'' fresh_a) = Inr [''true'']"
proof -
  have p: "Join [dir (drv fresh), ''nope''] = ''data/nope''"
    "Join [dir (drv only_sub), ''users''] = ''data/users''"
    "Join [dir (drv fresh_a), ''users''] = ''data/users''"
    by (simp_all add: run_defs fresh_a_def only_sub_def)
  have h1: "node_at fresh ''data/nope'' = Inl ENOENT"
    by (simp add: run_defs)
  have h2: "node_at only_sub ''data/users'' = Inr (Dir [(''sub'', Dir [])])"
    by (simp add: run_defs only_sub_def)
  have h3: "node_at fresh_a ''data/users'' = Inr (Dir [(''a.json'', File ''true'')])"
    by (simp add: run_defs fresh_a_def)
  have e2: "read_entry only_sub ''data/users'' ''sub'' = Inl (PathError ''read'' ''data/users/sub'' EISDIR)"
    by (simp add: read_entry_def run_defs only_sub_def)
  have e3: "read_entry fresh_a ''data/users'' ''a.json'' = Inr ''true''"
    by (simp add: read_entry_def run_defs fresh_a_def)
  show ?thesis
    using ReadAll_results[of fresh "''nope''" ENOENT, unfolded p]
      ReadAll_results[of only_sub "''users''" _ "[(''sub'', Dir [])]", unfolded p]
      ReadAll_results[of fresh_a "''users''" _ "[(''a.json'', File ''true'')]", unfolded p]
      h1 h2 h3
    by (simp add: e2 e3)
qed

subsection \<open>C8: where and what a write stores\<close>

text \<open>
  Claim C8. When \<^verbatim>\<open>Write(c, r, v)\<close> returns no error, the path
  \<^verbatim>\<open>Join(Join(dir, c), r + ".json")\<close>, which for a non-empty \<open>dir\<close> is the cleaned
  \<^verbatim>\<open>dir/c/r.json\<close>, names a regular file whose contents are the bytes of
  \<^verbatim>\<open>MarshalIndent(v, "", "\t")\<close>, whatever was at that path before.
\<close>

theorem Write_stores_record:
  assumes "Write js c r v w = Some (None, w')"
  shows "\<exists>b. MarshalIndent js v '''' [CHR 0x09] = Inr b \<and>
           node_at w' (Join [Join [dir (drv w), c], r @ ''.json'']) = Inr (File b) \<and>
           (dir (drv w) \<noteq> [] \<longrightarrow>
              Join [Join [dir (drv w), c], r @ ''.json''] =
              Clean (dir (drv w) @ ''/'' @ c @ ''/'' @ r @ ''.json''))"
proof -
  from Write_ok[OF assms] obtain b cs where
    b: "MarshalIndent js v '''' [CHR 0x09] = Inr b"
    and cs: "namei (cwd w) (Join [dir (drv w), c, r @ ''.json'']) = Inr cs"
    and f: "lookup (tree w') cs = Inr (File b)"
    and fr: "cwd w' = cwd w" by auto
  from cs f fr have "node_at w' (Join [Join [dir (drv w), c], r @ ''.json'']) = Inr (File b)"
    by (simp add: node_at_def Join_Join)
  moreover have "dir (drv w) \<noteq> [] \<longrightarrow>
      Join [Join [dir (drv w), c], r @ ''.json''] =
      Clean (dir (drv w) @ ''/'' @ c @ ''/'' @ r @ ''.json'')"
    by (simp add: Join_Join) (simp add: Join_def split: list.splits)
  ultimately show ?thesis using b by blast
qed

theorem Write_stores_record_witness:
  "Write bool_json ''users'' ''a'' True fresh = Some (None, fresh_a) \<and>
   MarshalIndent bool_json True '''' [CHR 0x09] = Inr ''true'' \<and>
   node_at fresh_a ''data/users/a.json'' = Inr (File ''true'') \<and>
   Clean (''data'' @ ''/'' @ ''users'' @ ''/'' @ ''a'' @ ''.json'') = ''data/users/a.json''"
proof -
  have h: "Write bool_json ''users'' ''a'' True fresh = Some (None, fresh_a)"
    by (simp add: run_defs fresh_a_def)
  have p: "Join [Join [''data'', ''users''], ''a.json''] = ''data/users/a.json''"
    by (simp add: run_defs)
  have d: "dir (drv fresh) = ''data''" by (simp add: fresh_def store_def)
  from Write_stores_record[OF h] h show ?thesis
    by (simp add: d p bool_json_def)
qed

subsection \<open>C9: the mutexes on return\<close>

text \<open>
  Claim C9. When \<^verbatim>\<open>Write\<close> or \<^verbatim>\<open>Delete\<close> returns, with an error or without, the
  guard is as it was, the same collection mutexes are held as before the call,
  and the events of the call are either none (the names were rejected) or the
  guard taken and released, the collection mutex taken, system calls only, and
  the collection mutex released as the last event.
\<close>

theorem locks_released:
  "(Write js c r v w = Some (e, w') \<longrightarrow>
      mutex (drv w') = mutex (drv w) \<and>
      (\<forall>k. (mutexes (drv w') k = Some True) = (mutexes (drv w) k = Some True)) \<and>
      (\<exists>evs. trace w' = trace w @ evs \<and>
         (evs = [] \<or>
          mutexes (drv w') c = Some False \<and>
          (\<exists>sys. evs = GuardLock # GuardUnlock # Lock c # sys @ [Unlock c] \<and>
                 list_all is_syscall sys)))) \<and>
   (Delete c r w = Some (e, w') \<longrightarrow>
      mutex (drv w') = mutex (drv w) \<and>
      (\<forall>k. (mutexes (drv w') k = Some True) = (mutexes (drv w) k = Some True)) \<and>
      mutexes (drv w') c = Some False \<and>
      (\<exists>sys. trace w' = trace w @ GuardLock # GuardUnlock # Lock c # sys @ [Unlock c] \<and>
             list_all is_syscall sys))"
proof (intro conjI impI)
  assume a: "Write js c r v w = Some (e, w')"
  let ?l = "Write_locked js c r v (acquired c w)"
  from Write_returns[OF a] consider
      (rejected) "w' = w"
    | (ran) "\<not> mutex (drv w)" "mutexes (drv w) c \<noteq> Some True" "w' = released c (snd ?l)"
    by blast
  note cases = this
  show "mutex (drv w') = mutex (drv w)"
    by (cases rule: cases) (simp_all add: Write_locked_frame)
  show "\<forall>k. (mutexes (drv w') k = Some True) = (mutexes (drv w) k = Some True)"
    by (cases rule: cases) (simp_all add: Write_locked_frame)
  show "\<exists>evs. trace w' = trace w @ evs \<and>
         (evs = [] \<or>
          mutexes (drv w') c = Some False \<and>
          (\<exists>sys. evs = GuardLock # GuardUnlock # Lock c # sys @ [Unlock c] \<and>
                 list_all is_syscall sys))"
  proof (cases rule: cases)
    case rejected
    then show ?thesis by simp
  next
    case ran
    obtain sys where sys: "trace (snd ?l) = trace (acquired c w) @ sys" "list_all is_syscall sys"
      using Write_locked_trace[of js c r v "acquired c w"] by blast
    have "trace w' = trace w @ GuardLock # GuardUnlock # Lock c # sys @ [Unlock c]"
      by (simp add: ran(3) sys)
    moreover have "mutexes (drv w') c = Some False"
      by (simp add: ran(3) Write_locked_frame)
    ultimately show ?thesis using sys(2) by blast
  qed
next
  assume a: "Delete c r w = Some (e, w')"
  let ?p = "Join [dir (drv w), c, r @ ''.json'']"
  from a have free: "\<not> mutex (drv w)" "mutexes (drv w) c \<noteq> Some True"
    and w': "w' = released c (snd (os_Remove ?p (acquired c w)))"
    by (auto simp: Delete_eq Let_def split: if_splits)
  show "mutex (drv w') = mutex (drv w)"
    using free by (simp add: w' os_Remove_frame)
  show "\<forall>k. (mutexes (drv w') k = Some True) = (mutexes (drv w) k = Some True)"
    using free by (simp add: w' os_Remove_frame)
  show "mutexes (drv w') c = Some False"
    by (simp add: w' os_Remove_frame)
  have "trace w' = trace w @ GuardLock # GuardUnlock # Lock c # [Syscall ''remove'' ?p] @ [Unlock c]"
    by (simp add: w' os_Remove_frame)
  moreover have "list_all is_syscall [Syscall ''remove'' ?p]" by simp
  ultimately show "\<exists>sys. trace w' = trace w @ GuardLock # GuardUnlock # Lock c # sys @ [Unlock c] \<and>
             list_all is_syscall sys" by blast
qed

theorem locks_released_witness:
  "Write bool_json ''users'' ''a'' True fresh = Some (None, fresh_a) \<and>
   Delete ''users'' ''a'' fresh_a = Some (None, fresh_a_gone) \<and>
   mutex (drv fresh_a) = mutex (drv fresh) \<and>
   (\<exists>evs. trace fresh_a = trace fresh @ evs \<and>
      (evs = [] \<or>
       mutexes (drv fresh_a) ''users'' = Some False \<and>
       (\<exists>sys. evs = GuardLock # GuardUnlock # Lock ''users'' # sys @ [Unlock ''users''] \<and>
              list_all is_syscall sys))) \<and>
   mutexes (drv fresh_a_gone) ''users'' = Some False \<and>
   (\<exists>sys. trace fresh_a_gone =
        trace fresh_a @ GuardLock # GuardUnlock # Lock ''users'' # sys @ [Unlock ''users''] \<and>
      list_all is_syscall sys)"
proof -
  have h1: "Write bool_json ''users'' ''a'' True fresh = Some (None, fresh_a)"
    by (simp add: run_defs fresh_a_def)
  have h2: "Delete ''users'' ''a'' fresh_a = Some (None, fresh_a_gone)"
    by (simp add: run_defs fresh_a_def fresh_a_gone_def)
  from locks_released[of bool_json "''users''" "''a''" True fresh None fresh_a]
    locks_released[of bool_json "''users''" "''a''" True fresh_a None fresh_a_gone]
    h1 h2
  show ?thesis by blast
qed

subsection \<open>C10: the dropped error of os.ReadDir\<close>

text \<open>
  Claim C10. Where \<^verbatim>\<open>os.Stat\<close> on the collection's path succeeds and
  \<^verbatim>\<open>os.ReadDir\<close> on it fails, \<^verbatim>\<open>ReadAll\<close> returns no payload and no error.
\<close>

theorem ReadAll_enumeration_error:
  assumes "fst (os_Stat (Join [dir (drv w), c]) w) = Inr info"
    and "fst (os_ReadDir (Join [dir (drv w), c]) w) = Inl e"
  shows "fst (ReadAll c w) = Inr []"
proof -
  have "fst (os_ReadDir (Join [dir (drv w), c]) (snd (os_Stat (Join [dir (drv w), c]) w))) = Inl e"
    using assms(2) by (simp add: os_ReadDir_proj os_Stat_proj)
  then show ?thesis
    using assms(1) by (simp add: ReadAll_def Let_def split_beta)
qed

theorem ReadAll_enumeration_error_witness:
  "fst (os_Stat ''data/users/a.json'' fresh_a) = Inr False \<and>
   fst (os_ReadDir ''data/users/a.json'' fresh_a) =
     Inl (PathError ''readdirent'' ''data/users/a.json'' ENOTDIR) \<and>
   fst (ReadAll ''users/a.json'' fresh_a) = Inr []"
proof -
  have p: "Join [dir (drv fresh_a), ''users/a.json''] = ''data/users/a.json''"
    by (simp add: run_defs fresh_a_def)
  have h1: "fst (os_Stat ''data/users/a.json'' fresh_a) = Inr False"
    by (simp add: run_defs fresh_a_def)
  have h2: "fst (os_ReadDir ''data/users/a.json'' fresh_a) =
     Inl (PathError ''readdirent'' ''data/users/a.json'' ENOTDIR)"
    by (simp add: run_defs fresh_a_def)
  from ReadAll_enumeration_error[of fresh_a "''users/a.json''", unfolded p, OF h1 h2] h1 h2
  show ?thesis by simp
qed

end
